theory Spec2Isabelle
  imports Main "HOL-Library.Word" "HOL-Library.AList"
begin

section \<open>Server key API: data model\<close>

text \<open>
  The embedding follows \<^verbatim>\<open>serverkeyapi/internal/api.go\<close>. The types and functions of the
  library gomatrixserverlib and of the Go standard library that the file uses are not part
  of the sources; their declarations are modelled by what the file reads and writes of
  them, and their functions are parameters (record \<open>extern\<close> below).

  A Go map that the code ranges over is an association list (its order is the iteration
  order the runtime happens to pick); a Go map that is only indexed is a HOL map.
\<close>

type_synonym Timestamp = "64 word"
type_synonym Duration = int
type_synonym Time = int

definition Second :: Duration where
  "Second = 1000000000"

datatype "context" = Background | WithCancel "context" | WithTimeout "context" Duration

record PublicKeyLookupRequest =
  ServerName :: string
  KeyID :: string

record VerifyKey =
  Key :: "8 word list"

record PublicKeyLookupResult =
  VerifyKey :: VerifyKey
  ExpiredTS :: Timestamp
  ValidUntilTS :: Timestamp

type_synonym Requests = "(PublicKeyLookupRequest \<times> Timestamp) list"
type_synonym Results = "PublicKeyLookupRequest \<rightharpoonup> PublicKeyLookupResult"
type_synonym Fetched = "(PublicKeyLookupRequest \<times> PublicKeyLookupResult) list"

text \<open>
  The collaborators are interfaces. Each call takes the state of the world outside the
  resolver (type \<open>'w\<close>) and returns the new one, so that a collaborator may answer
  differently from one call to the next. An error of a collaborator is its message.
\<close>

record 'w KeyFetcher =
  fetcher_FetcherName :: string
  fetcher_FetchKeys :: "context \<Rightarrow> Requests \<Rightarrow> 'w \<Rightarrow> (string + Fetched) \<times> 'w"

record 'w KeyDatabase =
  db_FetcherName :: string
  db_FetchKeys :: "context \<Rightarrow> Requests \<Rightarrow> 'w \<Rightarrow> (string + Fetched) \<times> 'w"
  db_StoreKeys :: "context \<Rightarrow> Results \<Rightarrow> 'w \<Rightarrow> string option \<times> 'w"

record 'w KeyRing =
  KeyDatabase :: "'w KeyDatabase"
  KeyFetchers :: "'w KeyFetcher list"

text \<open>
  The struct \<^verbatim>\<open>ServerKeyAPI\<close>. Its field \<^verbatim>\<open>ServerName\<close> is \<open>OwnServerName\<close> here (the
  request has a field of the same name); \<^verbatim>\<open>FedClient\<close> is used by none of the methods.
\<close>

record 'w ServerKeyAPI =
  OwnServerName :: string
  ServerPublicKey :: "8 word list"
  ServerKeyID :: string
  ServerKeyValidity :: Duration
  OurKeyRing :: "'w KeyRing"

text \<open>
  What the file takes from outside the repository: the wall clock (\<^verbatim>\<open>time.Now\<close>), the
  conversion \<^verbatim>\<open>gomatrixserverlib.AsTimestamp\<close>, the method \<^verbatim>\<open>WasValidAt\<close> of a lookup
  result and the constant \<^verbatim>\<open>PublicKeyNotExpired\<close>.
\<close>

record 'w extern =
  time_Now :: "'w \<Rightarrow> Time \<times> 'w"
  AsTimestamp :: "Time \<Rightarrow> Timestamp"
  WasValidAt :: "PublicKeyLookupResult \<Rightarrow> Timestamp \<Rightarrow> bool \<Rightarrow> bool"
  PublicKeyNotExpired :: Timestamp

text \<open>
  The errors the API returns: an error of a collaborator returned unchanged, the error
  that wraps a failed store, and the error of the completeness check.
\<close>

datatype error =
    Upstream string
  | StoreFailed string
  | Unsatisfied PublicKeyLookupRequest

text \<open>
  The effects of a call, in the order they happen: every reading of the clock, every call
  of a collaborator with its arguments and its answer, and the log lines of level error
  and warning (the lines of level info are left out).
\<close>

datatype event =
    TimeNow Time
  | DbFetchKeys "context" Requests "string + Fetched"
  | FetcherFetchKeys string "context" Requests "string + Fetched"
  | DbStoreKeys "context" Results "string option"
  | LogFetcherFailed string nat error
  | LogStoreFailed string string string
  | LogUnsatisfied PublicKeyLookupRequest

record 'w run =
  world :: 'w
  trace :: "event list"

definition emit :: "event \<Rightarrow> 'w run \<Rightarrow> 'w run" where
  "emit ev r = r\<lparr>trace := trace r @ [ev]\<rparr>"

definition read_clock :: "'w extern \<Rightarrow> 'w run \<Rightarrow> Time \<times> 'w run" where
  "read_clock ext r =
     (case time_Now ext (world r) of
        (t, w') \<Rightarrow> (t, emit (TimeNow t) (r\<lparr>world := w'\<rparr>)))"

section \<open>Server key API: operations\<close>

text \<open>\<^verbatim>\<open>StoreKeys\<close>: the caller's context is dropped, the database gets a background one.\<close>

definition StoreKeys ::
  "'w ServerKeyAPI \<Rightarrow> context \<Rightarrow> Results \<Rightarrow> 'w run \<Rightarrow> string option \<times> 'w run" where
  "StoreKeys s callerCtx results r =
     (let ctx = Background in
      case db_StoreKeys (KeyDatabase (OurKeyRing s)) ctx results (world r) of
        (err, w') \<Rightarrow> (err, emit (DbStoreKeys ctx results err) (r\<lparr>world := w'\<rparr>)))"

text \<open>The result that \<^verbatim>\<open>handleLocalKeys\<close> builds for a request of the server's own name.\<close>

definition local_result :: "'w extern \<Rightarrow> 'w ServerKeyAPI \<Rightarrow> Time \<Rightarrow> PublicKeyLookupResult" where
  "local_result ext s t =
     \<lparr>VerifyKey = \<lparr>Key = ServerPublicKey s\<rparr>,
      ExpiredTS = PublicKeyNotExpired ext,
      ValidUntilTS = AsTimestamp ext (t + ServerKeyValidity s)\<rparr>"

text \<open>
  \<^verbatim>\<open>handleLocalKeys\<close>: the loop over the keys of \<^verbatim>\<open>requests\<close>. The only entry a step
  deletes is the one it is at, so the loop sees every key the map had at its start.
\<close>

fun handleLocalKeys_range ::
  "'w extern \<Rightarrow> 'w ServerKeyAPI \<Rightarrow> PublicKeyLookupRequest list \<Rightarrow>
   Requests \<times> Results \<times> 'w run \<Rightarrow> Requests \<times> Results \<times> 'w run" where
  "handleLocalKeys_range ext s [] st = st"
| "handleLocalKeys_range ext s (req # rest) (requests, results, r) =
     (if ServerName req = OwnServerName s then
        (case read_clock ext r of
           (t, r') \<Rightarrow>
             handleLocalKeys_range ext s rest
               (AList.delete req requests, results(req \<mapsto> local_result ext s t), r'))
      else handleLocalKeys_range ext s rest (requests, results, r))"

definition handleLocalKeys ::
  "'w extern \<Rightarrow> 'w ServerKeyAPI \<Rightarrow> Requests \<Rightarrow> Results \<Rightarrow> 'w run \<Rightarrow>
   Requests \<times> Results \<times> 'w run" where
  "handleLocalKeys ext s requests results r =
     handleLocalKeys_range ext s (map fst requests) (requests, results, r)"

text \<open>\<^verbatim>\<open>handleDatabaseKeys\<close>: the loop over the database's answer, then the function.\<close>

fun handleDatabaseKeys_range ::
  "'w extern \<Rightarrow> Timestamp \<Rightarrow> Fetched \<Rightarrow> Requests \<times> Results \<Rightarrow> Requests \<times> Results" where
  "handleDatabaseKeys_range ext now [] st = st"
| "handleDatabaseKeys_range ext now ((req, res) # rest) (requests, results) =
     handleDatabaseKeys_range ext now rest
       (if WasValidAt ext res now True then AList.delete req requests else requests,
        results(req \<mapsto> res))"

definition handleDatabaseKeys ::
  "'w extern \<Rightarrow> 'w ServerKeyAPI \<Rightarrow> context \<Rightarrow> Timestamp \<Rightarrow> Requests \<Rightarrow> Results \<Rightarrow> 'w run \<Rightarrow>
   error option \<times> Requests \<times> Results \<times> 'w run" where
  "handleDatabaseKeys ext s ctx now requests results r =
     (case db_FetchKeys (KeyDatabase (OurKeyRing s)) ctx requests (world r) of
        (resp, w') \<Rightarrow>
          (let r' = emit (DbFetchKeys ctx requests resp) (r\<lparr>world := w'\<rparr>) in
           case resp of
             Inl err \<Rightarrow> (Some (Upstream err), requests, results, r')
           | Inr dbResults \<Rightarrow>
               (case handleDatabaseKeys_range ext now dbResults (requests, results) of
                  (requests', results') \<Rightarrow> (None, requests', results', r'))))"

text \<open>
  \<^verbatim>\<open>handleFetcherKeys\<close>: the loop over the fetcher's answer, with the map of the
  results to commit to the database, then the function. The maps are shared with the
  caller, so what the loop did to them stays when the store fails afterwards.
\<close>

fun handleFetcherKeys_range ::
  "'w extern \<Rightarrow> 'w ServerKeyAPI \<Rightarrow> Timestamp \<Rightarrow> Fetched \<Rightarrow>
   Requests \<times> Results \<times> Results \<Rightarrow> Requests \<times> Results \<times> Results" where
  "handleFetcherKeys_range ext s now [] st = st"
| "handleFetcherKeys_range ext s now ((req, res) # rest) (requests, results, storeResults) =
     handleFetcherKeys_range ext s now rest
       (if WasValidAt ext res now True then AList.delete req requests else requests,
        results(req \<mapsto> res),
        (case results req of
           Some prev \<Rightarrow>
             if ValidUntilTS res > ValidUntilTS prev then
               (if ServerName req \<noteq> OwnServerName s then storeResults(req \<mapsto> res)
                else storeResults)
             else storeResults
         | None \<Rightarrow>
             if ServerName req \<noteq> OwnServerName s then storeResults(req \<mapsto> res)
             else storeResults))"

definition handleFetcherKeys ::
  "'w extern \<Rightarrow> 'w ServerKeyAPI \<Rightarrow> context \<Rightarrow> Timestamp \<Rightarrow> 'w KeyFetcher \<Rightarrow>
   Requests \<Rightarrow> Results \<Rightarrow> 'w run \<Rightarrow> error option \<times> Requests \<times> Results \<times> 'w run" where
  "handleFetcherKeys ext s ctx now fetcher requests results r =
     (let fetcherCtx = WithTimeout ctx (Second * 30) in
      case fetcher_FetchKeys fetcher fetcherCtx requests (world r) of
        (resp, w1) \<Rightarrow>
          (let r1 = emit (FetcherFetchKeys (fetcher_FetcherName fetcher) fetcherCtx requests resp)
                      (r\<lparr>world := w1\<rparr>) in
           case resp of
             Inl err \<Rightarrow> (Some (Upstream err), requests, results, r1)
           | Inr fetcherResults \<Rightarrow>
               (case handleFetcherKeys_range ext s now fetcherResults
                       (requests, results, Map.empty) of
                  (requests', results', storeResults) \<Rightarrow>
                    (case db_StoreKeys (KeyDatabase (OurKeyRing s)) ctx storeResults (world r1) of
                       (serr, w2) \<Rightarrow>
                         (let r2 = emit (DbStoreKeys ctx storeResults serr) (r1\<lparr>world := w2\<rparr>) in
                          case serr of
                            Some err \<Rightarrow>
                              (Some (StoreFailed err), requests', results',
                               emit (LogStoreFailed (fetcher_FetcherName fetcher)
                                       (db_FetcherName (KeyDatabase (OurKeyRing s))) err) r2)
                          | None \<Rightarrow> (None, requests', results', r2))))))"

text \<open>
  \<^verbatim>\<open>FetchKeys\<close>: the loop over the fetchers, the completeness check (it stops at the
  first request without a result, in the order in which the copy is ranged over), and the
  function. The caller's map \<^verbatim>\<open>requests\<close> is
  the one the stages work on, so its final content is part of what the call leaves
  behind (\<open>requests_after\<close>); \<^verbatim>\<open>origRequests\<close> is the copy. A returned nil map is the
  empty map.
\<close>

fun FetchKeys_fetchers ::
  "'w extern \<Rightarrow> 'w ServerKeyAPI \<Rightarrow> context \<Rightarrow> Timestamp \<Rightarrow> 'w KeyFetcher list \<Rightarrow>
   Requests \<times> Results \<times> 'w run \<Rightarrow> Requests \<times> Results \<times> 'w run" where
  "FetchKeys_fetchers ext s ctx now [] st = st"
| "FetchKeys_fetchers ext s ctx now (fetcher # rest) (requests, results, r) =
     (if length requests = 0 then (requests, results, r)
      else
        (case handleFetcherKeys ext s ctx now fetcher requests results r of
           (Some err, requests', results', r') \<Rightarrow>
             FetchKeys_fetchers ext s ctx now rest
               (requests', results',
                emit (LogFetcherFailed (fetcher_FetcherName fetcher) (length requests') err) r')
         | (None, requests', results', r') \<Rightarrow>
             FetchKeys_fetchers ext s ctx now rest (requests', results', r')))"

fun FetchKeys_check :: "Requests \<Rightarrow> Results \<Rightarrow> PublicKeyLookupRequest option" where
  "FetchKeys_check [] results = None"
| "FetchKeys_check ((req, ts) # rest) results =
     (case results req of
        None \<Rightarrow> Some req
      | Some res \<Rightarrow> FetchKeys_check rest results)"

record 'w returned =
  results_of :: Results
  error_of :: "error option"
  requests_after :: Requests
  run_of :: "'w run"

definition FetchKeys ::
  "'w extern \<Rightarrow> 'w ServerKeyAPI \<Rightarrow> context \<Rightarrow> Requests \<Rightarrow> 'w \<Rightarrow> 'w returned" where
  "FetchKeys ext s callerCtx requests w =
     (let ctx = Background in
      case read_clock ext \<lparr>world = w, trace = []\<rparr> of
        (t, r0) \<Rightarrow>
          (let now = AsTimestamp ext t;
               origRequests = requests in
           case handleLocalKeys ext s requests Map.empty r0 of
             (requests1, results1, r1) \<Rightarrow>
               (case handleDatabaseKeys ext s ctx now requests1 results1 r1 of
                  (Some err, requests2, results2, r2) \<Rightarrow>
                    \<lparr>results_of = Map.empty, error_of = Some err,
                     requests_after = requests2, run_of = r2\<rparr>
                | (None, requests2, results2, r2) \<Rightarrow>
                    (case FetchKeys_fetchers ext s ctx now (KeyFetchers (OurKeyRing s))
                            (requests2, results2, r2) of
                       (requests3, results3, r3) \<Rightarrow>
                         (case FetchKeys_check origRequests results3 of
                            Some req \<Rightarrow>
                              \<lparr>results_of = results3, error_of = Some (Unsatisfied req),
                               requests_after = requests3,
                               run_of = emit (LogUnsatisfied req) r3\<rparr>
                          | None \<Rightarrow>
                              \<lparr>results_of = results3, error_of = None,
                               requests_after = requests3, run_of = r3\<rparr>)))))"

section \<open>Reading a trace\<close>

fun is_fetcher_call :: "event \<Rightarrow> bool" where
  "is_fetcher_call (FetcherFetchKeys name c reqs resp) = True"
| "is_fetcher_call ev = False"

fun is_store_call :: "event \<Rightarrow> bool" where
  "is_store_call (DbStoreKeys c batch serr) = True"
| "is_store_call ev = False"

fun is_db_failure :: "event \<Rightarrow> bool" where
  "is_db_failure (DbFetchKeys c reqs (Inl e)) = True"
| "is_db_failure ev = False"

text \<open>The names of the fetchers that were asked, in the order of the calls.\<close>

fun consulted :: "event list \<Rightarrow> string list" where
  "consulted [] = []"
| "consulted (FetcherFetchKeys name c reqs resp # evs) = name # consulted evs"
| "consulted (ev # evs) = consulted evs"

text \<open>The requests a collaborator was asked for, and those it answered.\<close>

fun asked :: "event \<Rightarrow> PublicKeyLookupRequest list" where
  "asked (DbFetchKeys c reqs resp) = map fst reqs"
| "asked (FetcherFetchKeys name c reqs resp) = map fst reqs"
| "asked ev = []"

fun answered :: "event \<Rightarrow> PublicKeyLookupRequest list" where
  "answered (DbFetchKeys c reqs (Inr fr)) = map fst fr"
| "answered (FetcherFetchKeys name c reqs (Inr fr)) = map fst fr"
| "answered ev = []"

text \<open>
  The entries of an answer, the requests for which an answer holds a result that is valid
  at \<open>now\<close> (those the stages delete from the pending requests), and the results after
  the answers of a trace have been written over a map, in the order of the calls.
\<close>

fun answers :: "event \<Rightarrow> Fetched" where
  "answers (DbFetchKeys c reqs (Inr fr)) = fr"
| "answers (FetcherFetchKeys name c reqs (Inr fr)) = fr"
| "answers ev = []"

definition valid_keys :: "'w extern \<Rightarrow> Timestamp \<Rightarrow> Fetched \<Rightarrow> PublicKeyLookupRequest list" where
  "valid_keys ext now fr = map fst (filter (\<lambda>p. WasValidAt ext (snd p) now True) fr)"

definition resolved :: "'w extern \<Rightarrow> Timestamp \<Rightarrow> event list \<Rightarrow> PublicKeyLookupRequest list" where
  "resolved ext now evs = concat (map (\<lambda>ev. valid_keys ext now (answers ev)) evs)"

fun merged :: "event list \<Rightarrow> Results \<Rightarrow> Results" where
  "merged [] results = results"
| "merged (ev # evs) results = merged evs (results ++ map_of (rev (answers ev)))"

text \<open>The context a collaborator was called with.\<close>

fun context_of :: "event \<Rightarrow> context option" where
  "context_of (DbFetchKeys c reqs resp) = Some c"
| "context_of (FetcherFetchKeys name c reqs resp) = Some c"
| "context_of (DbStoreKeys c batch serr) = Some c"
| "context_of ev = None"

text \<open>\<open>derived_from parent c\<close>: the context \<open>c\<close> is \<open>parent\<close> or was made from it.\<close>

fun derived_from :: "context \<Rightarrow> context \<Rightarrow> bool" where
  "derived_from parent Background = (parent = Background)"
| "derived_from parent (WithCancel c) = (parent = WithCancel c \<or> derived_from parent c)"
| "derived_from parent (WithTimeout c d) = (parent = WithTimeout c d \<or> derived_from parent c)"

text \<open>
  What the events of the fetcher stages look like, for the proofs below: a fetcher is
  asked for requests that were pending, with the capped context, and what it returns is
  in the results afterwards; a store has the stage's context and nothing under the
  server's own name.
\<close>

definition stage_event ::
  "'w ServerKeyAPI \<Rightarrow> context \<Rightarrow> Requests \<Rightarrow> Results \<Rightarrow> event \<Rightarrow> bool" where
  "stage_event s ctx requests results ev =
     (case ev of
        FetcherFetchKeys name c reqs resp \<Rightarrow>
          c = WithTimeout ctx (Second * 30) \<and> set reqs \<subseteq> set requests \<and>
          (case resp of Inl e \<Rightarrow> True | Inr fr \<Rightarrow> fst ` set fr \<subseteq> dom results)
      | DbStoreKeys c batch serr \<Rightarrow>
          c = ctx \<and> (\<forall>k. ServerName k = OwnServerName s \<longrightarrow> batch k = None)
      | LogFetcherFailed name n err \<Rightarrow> True
      | LogStoreFailed name dbname e \<Rightarrow> True
      | _ \<Rightarrow> False)"

section \<open>Key change consumer\<close>

text \<open>
  The embedding follows \<^verbatim>\<open>syncapi/consumers/keychange.go\<close>. Of the message of the
  transport, of the device message and of the streaming token only the fields the file
  uses are modelled (their declarations are not part of the sources). The JSON decoder
  and the roomserver's query are parameters; a query answers with an error or with the
  map it has put into the response, which is \<open>None\<close> when it left the map nil. The calls
  of the notifier and the queries sent are recorded in the consumer's state.
\<close>

record ConsumerMessage =
  msg_Value :: "8 word list"
  msg_Partition :: "32 word"
  msg_Offset :: "64 word"

record DeviceMessage =
  UserID :: string

record LogPosition =
  Partition :: "32 word"
  Offset :: "64 word"

record StreamingToken =
  DeviceListPosition :: LogPosition

datatype notifier_call =
  OnNewKeyChange (position: StreamingToken) (observer: string) (subject: string)

record 'w collaborators =
  json_Unmarshal :: "8 word list \<Rightarrow> string + DeviceMessage"
  QuerySharedUsers :: "string \<Rightarrow> 'w \<Rightarrow> (string + (string \<times> int) list option) \<times> 'w"

record 'w OutputKeyChangeEventConsumer =
  partitionToOffset :: "32 word \<rightharpoonup> 64 word"
  queries :: "string list"
  notified :: "notifier_call list"
  rs_world :: 'w

text \<open>How \<^verbatim>\<open>onMessage\<close> ends: it returns (an error or nil) or it panics.\<close>

datatype outcome = Returned "string option" | Panicked

definition updateOffset ::
  "ConsumerMessage \<Rightarrow> 'w OutputKeyChangeEventConsumer \<Rightarrow> 'w OutputKeyChangeEventConsumer" where
  "updateOffset msg c =
     c\<lparr>partitionToOffset := (partitionToOffset c)(msg_Partition msg \<mapsto> msg_Offset msg)\<rparr>"

text \<open>The loop over the users to notify.\<close>

fun onMessage_range ::
  "StreamingToken \<Rightarrow> string \<Rightarrow> (string \<times> int) list \<Rightarrow> notifier_call list \<Rightarrow> notifier_call list" where
  "onMessage_range posUpdate changed [] calls = calls"
| "onMessage_range posUpdate changed ((userID, n) # rest) calls =
     onMessage_range posUpdate changed rest (calls @ [OnNewKeyChange posUpdate userID changed])"

text \<open>The body of \<^verbatim>\<open>onMessage\<close>, without the deferred call.\<close>

definition onMessage_body ::
  "'w collaborators \<Rightarrow> ConsumerMessage \<Rightarrow> 'w OutputKeyChangeEventConsumer \<Rightarrow>
   outcome \<times> 'w OutputKeyChangeEventConsumer" where
  "onMessage_body deps msg c =
     (case json_Unmarshal deps (msg_Value msg) of
        Inl err \<Rightarrow> (Returned (Some err), c)
      | Inr output \<Rightarrow>
          (case QuerySharedUsers deps (UserID output) (rs_world c) of
             (answer, w') \<Rightarrow>
               (let c1 = c\<lparr>queries := queries c @ [UserID output], rs_world := w'\<rparr> in
                case answer of
                  Inl err \<Rightarrow> (Returned (Some err), c1)
                | Inr None \<Rightarrow> (Panicked, c1)
                | Inr (Some userIDsToCount) \<Rightarrow>
                    (let userIDsToCount' = AList.update (UserID output) 1 userIDsToCount;
                         posUpdate = \<lparr>DeviceListPosition =
                                        \<lparr>Partition = msg_Partition msg, Offset = msg_Offset msg\<rparr>\<rparr>
                     in (Returned None,
                         c1\<lparr>notified :=
                              onMessage_range posUpdate (UserID output) userIDsToCount'
                                (notified c1)\<rparr>)))))"

text \<open>
  \<^verbatim>\<open>onMessage\<close>: the deferred \<^verbatim>\<open>updateOffset\<close> runs when the body is left, whichever
  way it is left.
\<close>

definition onMessage ::
  "'w collaborators \<Rightarrow> ConsumerMessage \<Rightarrow> 'w OutputKeyChangeEventConsumer \<Rightarrow>
   outcome \<times> 'w OutputKeyChangeEventConsumer" where
  "onMessage deps msg c =
     (case onMessage_body deps msg c of (out, c') \<Rightarrow> (out, updateOffset msg c'))"

section \<open>Concrete collaborators and requests\<close>

text \<open>
  The values the concrete runs below use. The world is the number of stores issued so
  far. The clock stands at 300, a result is valid at \<open>t\<close> when \<open>t\<close> is not after its
  \<open>ValidUntilTS\<close>, and the server is \<open>''self''\<close> with a validity of 100.
\<close>

definition ext_ex :: "nat extern" where
  "ext_ex =
     \<lparr>time_Now = (\<lambda>w. (300, w)),
      AsTimestamp = word_of_int,
      WasValidAt = (\<lambda>res t expiredOK. t \<le> ValidUntilTS res),
      PublicKeyNotExpired = 0\<rparr>"

definition reqA :: PublicKeyLookupRequest where
  "reqA = \<lparr>ServerName = ''self'', KeyID = ''ed25519:a''\<rparr>"

definition reqB :: PublicKeyLookupRequest where
  "reqB = \<lparr>ServerName = ''remote'', KeyID = ''ed25519:b''\<rparr>"

definition reqC :: PublicKeyLookupRequest where
  "reqC = \<lparr>ServerName = ''other'', KeyID = ''ed25519:c''\<rparr>"

definition reqD :: PublicKeyLookupRequest where
  "reqD = \<lparr>ServerName = ''third'', KeyID = ''ed25519:d''\<rparr>"

definition res_until :: "Timestamp \<Rightarrow> PublicKeyLookupResult" where
  "res_until t = \<lparr>VerifyKey = \<lparr>Key = [1]\<rparr>, ExpiredTS = 0, ValidUntilTS = t\<rparr>"

definition fetcher_ex :: "string \<Rightarrow> (string + Fetched) \<Rightarrow> nat KeyFetcher" where
  "fetcher_ex name resp =
     \<lparr>fetcher_FetcherName = name, fetcher_FetchKeys = (\<lambda>ctx reqs w. (resp, w))\<rparr>"

definition db_ex :: "(string + Fetched) \<Rightarrow> (nat \<Rightarrow> string option) \<Rightarrow> nat KeyDatabase" where
  "db_ex resp store_err =
     \<lparr>db_FetcherName = ''db'',
      db_FetchKeys = (\<lambda>ctx reqs w. (resp, w)),
      db_StoreKeys = (\<lambda>ctx batch w. (store_err w, Suc w))\<rparr>"

definition api_ex :: "nat KeyDatabase \<Rightarrow> nat KeyFetcher list \<Rightarrow> nat ServerKeyAPI" where
  "api_ex db fs =
     \<lparr>OwnServerName = ''self'', ServerPublicKey = [7], ServerKeyID = ''ed25519:a'',
      ServerKeyValidity = 100, OurKeyRing = \<lparr>KeyDatabase = db, KeyFetchers = fs\<rparr>\<rparr>"

text \<open>The consumer's side: a decoder that accepts the one-byte message 1, and a query.\<close>

definition deps_ex :: "(string + (string \<times> int) list option) \<Rightarrow> unit collaborators" where
  "deps_ex answer =
     \<lparr>json_Unmarshal = (\<lambda>bytes. if bytes = [1] then Inr \<lparr>UserID = ''@alice:self''\<rparr>
                                 else Inl ''invalid character''),
      QuerySharedUsers = (\<lambda>userID w. (answer, w))\<rparr>"

definition consumer_ex :: "unit OutputKeyChangeEventConsumer" where
  "consumer_ex = \<lparr>partitionToOffset = Map.empty, queries = [], notified = [], rs_world = ()\<rparr>"

definition msg_ex :: "8 word list \<Rightarrow> ConsumerMessage" where
  "msg_ex bytes = \<lparr>msg_Value = bytes, msg_Partition = 2, msg_Offset = 41\<rparr>"

section \<open>The loops over the maps\<close>

lemma set_delete_subset: "set (AList.delete k xs) \<subseteq> set xs"
  by (auto simp: AList.delete_eq)

lemma handleLocalKeys_range_requests:
  "handleLocalKeys_range ext s ks (requests, results, r) = (requests', results', r') \<Longrightarrow>
   requests' = filter (\<lambda>p. \<not> (fst p \<in> set ks \<and> ServerName (fst p) = OwnServerName s)) requests"
proof (induction ks arbitrary: requests results r)
  case Nil
  then show ?case by simp
next
  case (Cons k ks)
  show ?case
  proof (cases "ServerName k = OwnServerName s")
    case True
    obtain t r1 where rc: "read_clock ext r = (t, r1)" by (cases "read_clock ext r")
    from Cons.prems True rc
    have "handleLocalKeys_range ext s ks (AList.delete k requests, results(k \<mapsto> local_result ext s t), r1)
          = (requests', results', r')" by simp
    from Cons.IH[OF this] True show ?thesis
      by (auto simp: AList.delete_eq intro!: filter_cong)
  next
    case False
    with Cons.prems have "handleLocalKeys_range ext s ks (requests, results, r) = (requests', results', r')"
      by simp
    from Cons.IH[OF this] False show ?thesis by (auto intro!: filter_cong)
  qed
qed

lemma handleLocalKeys_range_trace:
  "handleLocalKeys_range ext s ks (requests, results, r) = (requests', results', r') \<Longrightarrow>
   \<exists>ts. trace r' = trace r @ map TimeNow ts"
proof (induction ks arbitrary: requests results r)
  case Nil
  then show ?case by simp
next
  case (Cons k ks)
  show ?case
  proof (cases "ServerName k = OwnServerName s")
    case True
    obtain t r1 where rc: "read_clock ext r = (t, r1)" by (cases "read_clock ext r")
    then have tr1: "trace r1 = trace r @ [TimeNow t]"
      by (auto simp: read_clock_def emit_def split: prod.splits)
    from Cons.prems True rc
    have "handleLocalKeys_range ext s ks (AList.delete k requests, results(k \<mapsto> local_result ext s t), r1)
          = (requests', results', r')" by simp
    from Cons.IH[OF this] obtain ts where "trace r' = trace r1 @ map TimeNow ts" by blast
    with tr1 have "trace r' = trace r @ map TimeNow (t # ts)" by simp
    then show ?thesis by blast
  next
    case False
    with Cons.prems have "handleLocalKeys_range ext s ks (requests, results, r) = (requests', results', r')"
      by simp
    from Cons.IH[OF this] show ?thesis .
  qed
qed

lemma handleLocalKeys_range_other:
  "handleLocalKeys_range ext s ks (requests, results, r) = (requests', results', r') \<Longrightarrow>
   \<not> (req \<in> set ks \<and> ServerName req = OwnServerName s) \<Longrightarrow> results' req = results req"
proof (induction ks arbitrary: requests results r)
  case Nil
  then show ?case by simp
next
  case (Cons k ks)
  show ?case
  proof (cases "ServerName k = OwnServerName s")
    case True
    obtain t r1 where rc: "read_clock ext r = (t, r1)" by (cases "read_clock ext r")
    from Cons.prems(1) True rc
    have "handleLocalKeys_range ext s ks (AList.delete k requests, results(k \<mapsto> local_result ext s t), r1)
          = (requests', results', r')" by simp
    from Cons.IH[OF this] Cons.prems(2) True show ?thesis by auto
  next
    case False
    with Cons.prems have "handleLocalKeys_range ext s ks (requests, results, r) = (requests', results', r')"
      by simp
    from Cons.IH[OF this] Cons.prems(2) show ?thesis by auto
  qed
qed

lemma handleLocalKeys_range_own:
  "handleLocalKeys_range ext s ks (requests, results, r) = (requests', results', r') \<Longrightarrow>
   req \<in> set ks \<Longrightarrow> ServerName req = OwnServerName s \<Longrightarrow>
   \<exists>t. results' req = Some (local_result ext s t) \<and> TimeNow t \<in> set (trace r')"
proof (induction ks arbitrary: requests results r)
  case Nil
  then show ?case by simp
next
  case (Cons k ks)
  show ?case
  proof (cases "ServerName k = OwnServerName s")
    case True
    obtain t r1 where rc: "read_clock ext r = (t, r1)" by (cases "read_clock ext r")
    then have tr1: "trace r1 = trace r @ [TimeNow t]"
      by (auto simp: read_clock_def emit_def split: prod.splits)
    from Cons.prems(1) True rc
    have step: "handleLocalKeys_range ext s ks (AList.delete k requests, results(k \<mapsto> local_result ext s t), r1)
          = (requests', results', r')" by simp
    show ?thesis
    proof (cases "req \<in> set ks")
      case True
      from Cons.IH[OF step True Cons.prems(3)] show ?thesis .
    next
      case False
      with Cons.prems(2) have eq: "req = k" by simp
      from handleLocalKeys_range_other[OF step, of req] False
      have "results' req = Some (local_result ext s t)" using eq by simp
      moreover from handleLocalKeys_range_trace[OF step] tr1 have "TimeNow t \<in> set (trace r')" by auto
      ultimately show ?thesis by blast
    qed
  next
    case False
    with Cons.prems have step: "handleLocalKeys_range ext s ks (requests, results, r) = (requests', results', r')"
      and "req \<in> set ks" by auto
    from Cons.IH[OF step \<open>req \<in> set ks\<close> Cons.prems(3)] show ?thesis .
  qed
qed

lemma handleDatabaseKeys_range_requests:
  "handleDatabaseKeys_range ext now fr (requests, results) = (requests', results') \<Longrightarrow>
   set requests' \<subseteq> set requests"
proof (induction fr arbitrary: requests results)
  case Nil
  then show ?case by simp
next
  case (Cons p fr)
  obtain req res where p: "p = (req, res)" by (cases p)
  let ?rq = "if WasValidAt ext res now True then AList.delete req requests else requests"
  from Cons.prems p
  have "handleDatabaseKeys_range ext now fr (?rq, results(req \<mapsto> res)) = (requests', results')"
    by simp
  from Cons.IH[OF this] have "set requests' \<subseteq> set ?rq" .
  also have "set ?rq \<subseteq> set requests" using set_delete_subset[of req requests] by auto
  finally show ?case .
qed

lemma handleDatabaseKeys_range_results:
  "handleDatabaseKeys_range ext now fr (requests, results) = (requests', results') \<Longrightarrow>
   results' = results ++ map_of (rev fr)"
proof (induction fr arbitrary: requests results)
  case Nil
  then show ?case by simp
next
  case (Cons p fr)
  obtain req res where p: "p = (req, res)" by (cases p)
  let ?rq = "if WasValidAt ext res now True then AList.delete req requests else requests"
  from Cons.prems p
  have "handleDatabaseKeys_range ext now fr (?rq, results(req \<mapsto> res)) = (requests', results')"
    by simp
  from Cons.IH[OF this] have "results' = results(req \<mapsto> res) ++ map_of (rev fr)" .
  then show ?case using p by (simp add: map_add_upd_left)
qed

lemma handleFetcherKeys_range_requests:
  "handleFetcherKeys_range ext s now fr (requests, results, store) = (requests', results', store') \<Longrightarrow>
   set requests' \<subseteq> set requests"
proof (induction fr arbitrary: requests results store)
  case Nil
  then show ?case by simp
next
  case (Cons p fr)
  obtain req res where p: "p = (req, res)" by (cases p)
  let ?rq = "if WasValidAt ext res now True then AList.delete req requests else requests"
  from Cons.prems p
  obtain store1 where
    "handleFetcherKeys_range ext s now fr (?rq, results(req \<mapsto> res), store1) = (requests', results', store')"
    by simp
  from Cons.IH[OF this] have "set requests' \<subseteq> set ?rq" .
  also have "set ?rq \<subseteq> set requests" using set_delete_subset[of req requests] by auto
  finally show ?case .
qed

lemma handleFetcherKeys_range_results:
  "handleFetcherKeys_range ext s now fr (requests, results, store) = (requests', results', store') \<Longrightarrow>
   results' = results ++ map_of (rev fr)"
proof (induction fr arbitrary: requests results store)
  case Nil
  then show ?case by simp
next
  case (Cons p fr)
  obtain req res where p: "p = (req, res)" by (cases p)
  let ?rq = "if WasValidAt ext res now True then AList.delete req requests else requests"
  from Cons.prems p
  obtain store1 where
    "handleFetcherKeys_range ext s now fr (?rq, results(req \<mapsto> res), store1) = (requests', results', store')"
    by simp
  from Cons.IH[OF this] have "results' = results(req \<mapsto> res) ++ map_of (rev fr)" .
  then show ?case using p by (simp add: map_add_upd_left)
qed

lemma handleFetcherKeys_range_store_own:
  "handleFetcherKeys_range ext s now fr (requests, results, store) = (requests', results', store') \<Longrightarrow>
   ServerName k = OwnServerName s \<Longrightarrow> store' k = store k"
proof (induction fr arbitrary: requests results store)
  case Nil
  then show ?case by simp
next
  case (Cons p fr)
  obtain req res where p: "p = (req, res)" by (cases p)
  let ?rq = "if WasValidAt ext res now True then AList.delete req requests else requests"
  let ?st = "(case results req of
           Some prev \<Rightarrow>
             if ValidUntilTS res > ValidUntilTS prev then
               (if ServerName req \<noteq> OwnServerName s then store(req \<mapsto> res)
                else store)
             else store
         | None \<Rightarrow>
             if ServerName req \<noteq> OwnServerName s then store(req \<mapsto> res)
             else store)"
  from Cons.prems(1) p
  have "handleFetcherKeys_range ext s now fr (?rq, results(req \<mapsto> res), ?st) = (requests', results', store')"
    by simp
  from Cons.IH[OF this Cons.prems(2)] have "store' k = ?st k" .
  also have "?st k = store k" using Cons.prems(2) by (auto split: option.splits)
  finally show ?case .
qed

lemma handleFetcherKeys_range_store_absent:
  "handleFetcherKeys_range ext s now fr (requests, results, store) = (requests', results', store') \<Longrightarrow>
   k \<notin> fst ` set fr \<Longrightarrow> store' k = store k"
proof (induction fr arbitrary: requests results store)
  case Nil
  then show ?case by simp
next
  case (Cons p fr)
  obtain req res where p: "p = (req, res)" by (cases p)
  let ?rq = "if WasValidAt ext res now True then AList.delete req requests else requests"
  let ?st = "(case results req of
           Some prev \<Rightarrow>
             if ValidUntilTS res > ValidUntilTS prev then
               (if ServerName req \<noteq> OwnServerName s then store(req \<mapsto> res)
                else store)
             else store
         | None \<Rightarrow>
             if ServerName req \<noteq> OwnServerName s then store(req \<mapsto> res)
             else store)"
  from Cons.prems(1) p
  have "handleFetcherKeys_range ext s now fr (?rq, results(req \<mapsto> res), ?st) = (requests', results', store')"
    by simp
  moreover from Cons.prems(2) p have "k \<notin> fst ` set fr" and "k \<noteq> req" by auto
  ultimately have "store' k = ?st k" using Cons.IH by blast
  also have "?st k = store k" using \<open>k \<noteq> req\<close> by (auto split: option.splits)
  finally show ?case .
qed

text \<open>The entry of a key that the answer holds once: what the step at that key decides.\<close>

lemma handleFetcherKeys_range_store_at:
  "handleFetcherKeys_range ext s now fr (requests, results, store) = (requests', results', store') \<Longrightarrow>
   distinct (map fst fr) \<Longrightarrow> (k, res) \<in> set fr \<Longrightarrow>
   store' k =
     (if ServerName k \<noteq> OwnServerName s \<and>
         (case results k of None \<Rightarrow> True | Some prev \<Rightarrow> ValidUntilTS prev < ValidUntilTS res)
      then Some res else store k)"
proof (induction fr arbitrary: requests results store)
  case Nil
  then show ?case by simp
next
  case (Cons p fr)
  obtain req res0 where p: "p = (req, res0)" by (cases p)
  let ?rq = "if WasValidAt ext res0 now True then AList.delete req requests else requests"
  let ?st = "(case results req of
           Some prev \<Rightarrow>
             if ValidUntilTS res0 > ValidUntilTS prev then
               (if ServerName req \<noteq> OwnServerName s then store(req \<mapsto> res0)
                else store)
             else store
         | None \<Rightarrow>
             if ServerName req \<noteq> OwnServerName s then store(req \<mapsto> res0)
             else store)"
  from Cons.prems(1) p
  have step: "handleFetcherKeys_range ext s now fr (?rq, results(req \<mapsto> res0), ?st) = (requests', results', store')"
    by simp
  from Cons.prems(2) p have dist: "distinct (map fst fr)" and notin: "req \<notin> fst ` set fr" by auto
  show ?case
  proof (cases "k = req")
    case True
    with Cons.prems(3) p notin have "res = res0" by (auto simp: image_iff)
    from handleFetcherKeys_range_store_absent[OF step notin] have "store' req = ?st req" .
    then show ?thesis using True \<open>res = res0\<close> by (auto split: option.splits)
  next
    case False
    with Cons.prems(3) p have mem: "(k, res) \<in> set fr" by auto
    from Cons.IH[OF step dist mem] False show ?thesis by (auto split: option.splits)
  qed
qed

section \<open>The fetcher stages\<close>

lemma handleFetcherKeys_cases:
  assumes "handleFetcherKeys ext s ctx now f requests results r = (err, requests', results', r')"
  obtains
    (fetch_failed) e w1 where
      "fetcher_FetchKeys f (WithTimeout ctx (Second * 30)) requests (world r) = (Inl e, w1)"
      "err = Some (Upstream e)" "requests' = requests" "results' = results"
      "trace r' = trace r @ [FetcherFetchKeys (fetcher_FetcherName f) (WithTimeout ctx (Second * 30)) requests (Inl e)]"
  | (stored) fr w1 store w2 where
      "fetcher_FetchKeys f (WithTimeout ctx (Second * 30)) requests (world r) = (Inr fr, w1)"
      "handleFetcherKeys_range ext s now fr (requests, results, Map.empty) = (requests', results', store)"
      "db_StoreKeys (KeyDatabase (OurKeyRing s)) ctx store w1 = (None, w2)"
      "err = None"
      "trace r' = trace r @ [FetcherFetchKeys (fetcher_FetcherName f) (WithTimeout ctx (Second * 30)) requests (Inr fr),
                             DbStoreKeys ctx store None]"
  | (store_failed) fr w1 store e w2 where
      "fetcher_FetchKeys f (WithTimeout ctx (Second * 30)) requests (world r) = (Inr fr, w1)"
      "handleFetcherKeys_range ext s now fr (requests, results, Map.empty) = (requests', results', store)"
      "db_StoreKeys (KeyDatabase (OurKeyRing s)) ctx store w1 = (Some e, w2)"
      "err = Some (StoreFailed e)"
      "trace r' = trace r @ [FetcherFetchKeys (fetcher_FetcherName f) (WithTimeout ctx (Second * 30)) requests (Inr fr),
                             DbStoreKeys ctx store (Some e),
                             LogStoreFailed (fetcher_FetcherName f) (db_FetcherName (KeyDatabase (OurKeyRing s))) e]"
proof -
  obtain resp w1 where f: "fetcher_FetchKeys f (WithTimeout ctx (Second * 30)) requests (world r) = (resp, w1)"
    by (cases "fetcher_FetchKeys f (WithTimeout ctx (Second * 30)) requests (world r)")
  show thesis
  proof (cases resp)
    case (Inl e)
    with assms f show thesis
      by (intro fetch_failed[of e w1]) (auto simp: handleFetcherKeys_def emit_def Let_def)
  next
    case (Inr fr)
    obtain rq rs store where rng: "handleFetcherKeys_range ext s now fr (requests, results, Map.empty) = (rq, rs, store)"
      by (cases "handleFetcherKeys_range ext s now fr (requests, results, Map.empty)")
    obtain serr w2 where st: "db_StoreKeys (KeyDatabase (OurKeyRing s)) ctx store w1 = (serr, w2)"
      by (cases "db_StoreKeys (KeyDatabase (OurKeyRing s)) ctx store w1")
    show thesis
    proof (cases serr)
      case None
      with assms f Inr rng st show thesis
        by (intro stored[of fr w1 store w2]) (auto simp: handleFetcherKeys_def emit_def Let_def)
    next
      case (Some e)
      with assms f Inr rng st show thesis
        by (intro store_failed[of fr w1 store e w2]) (auto simp: handleFetcherKeys_def emit_def Let_def)
    qed
  qed
qed


lemma consulted_append: "consulted (xs @ ys) = consulted xs @ consulted ys"
  by (induction xs rule: consulted.induct) simp_all

lemma stage_event_mono:
  "stage_event s ctx rq rs ev \<Longrightarrow> set rq \<subseteq> set rq' \<Longrightarrow> dom rs \<subseteq> dom rs' \<Longrightarrow>
   stage_event s ctx rq' rs' ev"
  unfolding stage_event_def
  by (cases ev) (simp_all split: sum.splits, blast)

lemma handleFetcherKeys_stage:
  assumes "handleFetcherKeys ext s ctx now f requests results r = (err, requests', results', r')"
  shows "set requests' \<subseteq> set requests \<and> dom results \<subseteq> dom results' \<and>
    (\<exists>new. trace r' = trace r @ new \<and>
       (\<forall>ev\<in>set new. stage_event s ctx requests results' ev) \<and>
       consulted new = [fetcher_FetcherName f] \<and>
       (\<forall>c b e. DbStoreKeys c b (Some e) \<in> set new \<longrightarrow> err = Some (StoreFailed e)) \<and>
       (\<forall>name n e. LogFetcherFailed name n e \<notin> set new) \<and>
       (\<forall>k. (\<forall>name c reqs fr. FetcherFetchKeys name c reqs (Inr fr) \<in> set new \<longrightarrow> k \<notin> fst ` set fr)
            \<longrightarrow> results' k = results k))"
  using assms
proof (cases rule: handleFetcherKeys_cases)
  case (fetch_failed e w1)
  then show ?thesis by (simp add: stage_event_def)
next
  case (stored fr w1 store w2)
  from handleFetcherKeys_range_requests[OF stored(2)] have rq: "set requests' \<subseteq> set requests" .
  from handleFetcherKeys_range_results[OF stored(2)] have rs: "results' = results ++ map_of (rev fr)" .
  have own: "\<forall>k. ServerName k = OwnServerName s \<longrightarrow> store k = None"
    using handleFetcherKeys_range_store_own[OF stored(2)] by simp
  have dom: "dom results' = dom results \<union> fst ` set fr"
    by (simp add: rs dom_map_of_conv_image_fst Un_commute)
  have same: "k \<notin> fst ` set fr \<Longrightarrow> results' k = results k" for k
    using rs by (simp add: map_add_dom_app_simps dom_map_of_conv_image_fst)
  show ?thesis using rq dom own same stored(5)
    by (simp add: stage_event_def)
next
  case (store_failed fr w1 store e w2)
  from handleFetcherKeys_range_requests[OF store_failed(2)] have rq: "set requests' \<subseteq> set requests" .
  from handleFetcherKeys_range_results[OF store_failed(2)] have rs: "results' = results ++ map_of (rev fr)" .
  have own: "\<forall>k. ServerName k = OwnServerName s \<longrightarrow> store k = None"
    using handleFetcherKeys_range_store_own[OF store_failed(2)] by simp
  have dom: "dom results' = dom results \<union> fst ` set fr"
    by (simp add: rs dom_map_of_conv_image_fst Un_commute)
  have same: "k \<notin> fst ` set fr \<Longrightarrow> results' k = results k" for k
    using rs by (simp add: map_add_dom_app_simps dom_map_of_conv_image_fst)
  show ?thesis using rq dom own same store_failed(4,5)
    by (simp add: stage_event_def)
qed


lemma FetchKeys_fetchers_stage:
  "FetchKeys_fetchers ext s ctx now fs (requests, results, r) = (requests', results', r') \<Longrightarrow>
   set requests' \<subseteq> set requests \<and> dom results \<subseteq> dom results' \<and>
   (\<exists>new. trace r' = trace r @ new \<and>
      (\<forall>ev\<in>set new. stage_event s ctx requests results' ev) \<and>
      (requests' \<noteq> [] \<longrightarrow> consulted new = map fetcher_FetcherName fs) \<and>
      (\<forall>c b e. DbStoreKeys c b (Some e) \<in> set new \<longrightarrow>
         (\<exists>name n. LogFetcherFailed name n (StoreFailed e) \<in> set new)) \<and>
      (\<forall>k. (\<forall>name c reqs fr. FetcherFetchKeys name c reqs (Inr fr) \<in> set new \<longrightarrow> k \<notin> fst ` set fr)
           \<longrightarrow> results' k = results k))"
proof (induction fs arbitrary: requests results r)
  case Nil
  then show ?case by simp
next
  case (Cons f fs)
  show ?case
  proof (cases "requests = []")
    case True
    with Cons.prems show ?thesis by simp
  next
    case False
    obtain err rq1 rs1 r1 where
      h: "handleFetcherKeys ext s ctx now f requests results r = (err, rq1, rs1, r1)"
      by (cases "handleFetcherKeys ext s ctx now f requests results r")
    define logs where
      "logs = (case err of None \<Rightarrow> []
               | Some e \<Rightarrow> [LogFetcherFailed (fetcher_FetcherName f) (length rq1) e])"
    define r1' where "r1' = r1\<lparr>trace := trace r1 @ logs\<rparr>"
    from Cons.prems False h
    have step: "FetchKeys_fetchers ext s ctx now fs (rq1, rs1, r1') = (requests', results', r')"
      by (cases err) (simp_all add: r1'_def logs_def emit_def)
    from handleFetcherKeys_stage[OF h] obtain new1 where
      rq1: "set rq1 \<subseteq> set requests" and rs1: "dom results \<subseteq> dom rs1" and
      t1: "trace r1 = trace r @ new1" and
      ev1: "\<forall>ev\<in>set new1. stage_event s ctx requests rs1 ev" and
      c1: "consulted new1 = [fetcher_FetcherName f]" and
      sf1: "\<forall>c b e. DbStoreKeys c b (Some e) \<in> set new1 \<longrightarrow> err = Some (StoreFailed e)" and
      k1: "\<forall>k. (\<forall>name c reqs fr. FetcherFetchKeys name c reqs (Inr fr) \<in> set new1 \<longrightarrow> k \<notin> fst ` set fr)
            \<longrightarrow> rs1 k = results k"
      by blast
    from Cons.IH[OF step] obtain new2 where
      rq2: "set requests' \<subseteq> set rq1" and rs2: "dom rs1 \<subseteq> dom results'" and
      t2: "trace r' = trace r1' @ new2" and
      ev2: "\<forall>ev\<in>set new2. stage_event s ctx rq1 results' ev" and
      c2: "requests' \<noteq> [] \<longrightarrow> consulted new2 = map fetcher_FetcherName fs" and
      sf2: "\<forall>c b e. DbStoreKeys c b (Some e) \<in> set new2 \<longrightarrow>
         (\<exists>name n. LogFetcherFailed name n (StoreFailed e) \<in> set new2)" and
      k2: "\<forall>k. (\<forall>name c reqs fr. FetcherFetchKeys name c reqs (Inr fr) \<in> set new2 \<longrightarrow> k \<notin> fst ` set fr)
            \<longrightarrow> results' k = rs1 k"
      by blast
    let ?new = "new1 @ logs @ new2"
    have tr: "trace r' = trace r @ ?new"
      using t1 t2 by (simp add: r1'_def)
    have logs_ev: "\<forall>ev\<in>set logs. stage_event s ctx requests results' ev"
      by (cases err) (simp_all add: logs_def stage_event_def)
    have logs_consulted: "consulted logs = []"
      by (cases err) (simp_all add: logs_def)
    have logs_fetch: "FetcherFetchKeys name c reqs resp \<notin> set logs" for name c reqs resp
      by (cases err) (simp_all add: logs_def)
    have logs_store: "DbStoreKeys c b x \<notin> set logs" for c b x
      by (cases err) (simp_all add: logs_def)
    have evs: "\<forall>ev\<in>set ?new. stage_event s ctx requests results' ev"
    proof
      fix ev assume "ev \<in> set ?new"
      then consider "ev \<in> set new1" | "ev \<in> set logs" | "ev \<in> set new2" by auto
      then show "stage_event s ctx requests results' ev"
      proof cases
        case 1
        with ev1 have "stage_event s ctx requests rs1 ev" by blast
        then show ?thesis using rs2 by (rule stage_event_mono[OF _ subset_refl])
      next
        case 2
        with logs_ev show ?thesis by blast
      next
        case 3
        with ev2 have "stage_event s ctx rq1 results' ev" by blast
        then show ?thesis using rq1 by (rule stage_event_mono[OF _ _ subset_refl])
      qed
    qed
    have cons: "requests' \<noteq> [] \<longrightarrow> consulted ?new = map fetcher_FetcherName (f # fs)"
      using c1 c2 logs_consulted by (simp add: consulted_append)
    have sf: "\<forall>c b e. DbStoreKeys c b (Some e) \<in> set ?new \<longrightarrow>
         (\<exists>name n. LogFetcherFailed name n (StoreFailed e) \<in> set ?new)"
    proof (intro allI impI)
      fix c b e assume "DbStoreKeys c b (Some e) \<in> set ?new"
      with logs_store consider "DbStoreKeys c b (Some e) \<in> set new1" | "DbStoreKeys c b (Some e) \<in> set new2"
        by auto
      then show "\<exists>name n. LogFetcherFailed name n (StoreFailed e) \<in> set ?new"
      proof cases
        case 1
        with sf1 have "err = Some (StoreFailed e)" by blast
        then have "LogFetcherFailed (fetcher_FetcherName f) (length rq1) (StoreFailed e) \<in> set logs"
          by (simp add: logs_def)
        then show ?thesis by auto
      next
        case 2
        with sf2 obtain name n where "LogFetcherFailed name n (StoreFailed e) \<in> set new2" by blast
        then show ?thesis by auto
      qed
    qed
    have keep: "\<forall>k. (\<forall>name c reqs fr. FetcherFetchKeys name c reqs (Inr fr) \<in> set ?new \<longrightarrow> k \<notin> fst ` set fr)
           \<longrightarrow> results' k = results k"
    proof (intro allI impI)
      fix k
      assume a: "\<forall>name c reqs fr. FetcherFetchKeys name c reqs (Inr fr) \<in> set ?new \<longrightarrow> k \<notin> fst ` set fr"
      then have "rs1 k = results k" using k1 by auto
      moreover from a have "results' k = rs1 k" using k2 by auto
      ultimately show "results' k = results k" by simp
    qed
    from rq1 rq2 have "set requests' \<subseteq> set requests" by blast
    moreover from rs1 rs2 have "dom results \<subseteq> dom results'" by blast
    ultimately show ?thesis using tr evs cons sf keep by blast
  qed
qed

section \<open>The whole call\<close>

lemma FetchKeys_check_None:
  "FetchKeys_check rq rs = None \<longleftrightarrow> (\<forall>req\<in>fst ` set rq. rs req \<noteq> None)"
  by (induction rq rs rule: FetchKeys_check.induct) (auto split: option.splits)

lemma FetchKeys_check_Some:
  "FetchKeys_check rq rs = Some req \<Longrightarrow> req \<in> fst ` set rq \<and> rs req = None"
  by (induction rq rs rule: FetchKeys_check.induct) (auto split: option.splits)

lemma read_clock_trace:
  "read_clock ext r = (t, r') \<Longrightarrow> trace r' = trace r @ [TimeNow t]"
  by (auto simp: read_clock_def emit_def split: prod.splits)

lemma FetchKeys_cases:
  fixes ext :: "'w extern" and s :: "'w ServerKeyAPI"
  obtains
    (db_failed) t requests1 results1 r1 r2 e w2 where
      "handleLocalKeys_range ext s (map fst requests) (requests, Map.empty, r1) = (requests1, results1, r2)"
      "trace r1 = [TimeNow t]"
      "FetchKeys ext s callerCtx requests w =
         \<lparr>results_of = Map.empty, error_of = Some (Upstream e), requests_after = requests1,
          run_of = emit (DbFetchKeys Background requests1 (Inl e)) (r2\<lparr>world := w2\<rparr>)\<rparr>"
  | (db_ok) t requests1 results1 r1 r2 dbResults w2 requests2 results2 requests3 results3 r3 where
      "handleLocalKeys_range ext s (map fst requests) (requests, Map.empty, r1) = (requests1, results1, r2)"
      "trace r1 = [TimeNow t]"
      "handleDatabaseKeys_range ext (AsTimestamp ext t) dbResults (requests1, results1) = (requests2, results2)"
      "FetchKeys_fetchers ext s Background (AsTimestamp ext t) (KeyFetchers (OurKeyRing s))
         (requests2, results2, emit (DbFetchKeys Background requests1 (Inr dbResults)) (r2\<lparr>world := w2\<rparr>))
       = (requests3, results3, r3)"
      "results_of (FetchKeys ext s callerCtx requests w) = results3"
      "error_of (FetchKeys ext s callerCtx requests w) = map_option Unsatisfied (FetchKeys_check requests results3)"
      "requests_after (FetchKeys ext s callerCtx requests w) = requests3"
      "trace (run_of (FetchKeys ext s callerCtx requests w)) =
         trace r3 @ (case FetchKeys_check requests results3 of None \<Rightarrow> [] | Some req \<Rightarrow> [LogUnsatisfied req])"
proof -
  obtain t r1 where rc: "read_clock ext \<lparr>world = w, trace = []\<rparr> = (t, r1)"
    by (cases "read_clock ext \<lparr>world = w, trace = []\<rparr>")
  from read_clock_trace[OF rc] have t1: "trace r1 = [TimeNow t]" by simp
  obtain requests1 results1 r2 where
    lk: "handleLocalKeys_range ext s (map fst requests) (requests, Map.empty, r1) = (requests1, results1, r2)"
    by (cases "handleLocalKeys_range ext s (map fst requests) (requests, Map.empty, r1)")
  obtain resp w2 where
    db: "db_FetchKeys (KeyDatabase (OurKeyRing s)) Background requests1 (world r2) = (resp, w2)"
    by (cases "db_FetchKeys (KeyDatabase (OurKeyRing s)) Background requests1 (world r2)")
  show thesis
  proof (cases resp)
    case (Inl e)
    have "FetchKeys ext s callerCtx requests w =
         \<lparr>results_of = Map.empty, error_of = Some (Upstream e), requests_after = requests1,
          run_of = emit (DbFetchKeys Background requests1 (Inl e)) (r2\<lparr>world := w2\<rparr>)\<rparr>"
      using rc lk db Inl
      by (simp add: FetchKeys_def handleLocalKeys_def handleDatabaseKeys_def Let_def)
    then show thesis by (rule db_failed[OF lk t1])
  next
    case (Inr dbResults)
    obtain requests2 results2 where
      rng: "handleDatabaseKeys_range ext (AsTimestamp ext t) dbResults (requests1, results1) = (requests2, results2)"
      by (cases "handleDatabaseKeys_range ext (AsTimestamp ext t) dbResults (requests1, results1)")
    obtain requests3 results3 r3 where
      lp: "FetchKeys_fetchers ext s Background (AsTimestamp ext t) (KeyFetchers (OurKeyRing s))
         (requests2, results2, emit (DbFetchKeys Background requests1 (Inr dbResults)) (r2\<lparr>world := w2\<rparr>))
       = (requests3, results3, r3)"
      by (cases "FetchKeys_fetchers ext s Background (AsTimestamp ext t) (KeyFetchers (OurKeyRing s))
         (requests2, results2, emit (DbFetchKeys Background requests1 (Inr dbResults)) (r2\<lparr>world := w2\<rparr>))")
    have un: "FetchKeys ext s callerCtx requests w =
      (case FetchKeys_check requests results3 of
         Some req \<Rightarrow> \<lparr>results_of = results3, error_of = Some (Unsatisfied req),
                       requests_after = requests3, run_of = emit (LogUnsatisfied req) r3\<rparr>
       | None \<Rightarrow> \<lparr>results_of = results3, error_of = None,
                    requests_after = requests3, run_of = r3\<rparr>)"
      using rc lk db Inr rng lp
      by (simp add: FetchKeys_def handleLocalKeys_def handleDatabaseKeys_def Let_def)
    show thesis
      by (rule db_ok[OF lk t1 rng lp])
         (simp_all add: un emit_def split: option.splits)
  qed
qed


lemma FetchKeys_shape:
  fixes ext :: "'w extern" and s :: "'w ServerKeyAPI"
    and callerCtx :: "context" and requests :: Requests and w :: 'w
  defines "ret \<equiv> FetchKeys ext s callerCtx requests w"
  defines "requests1 \<equiv> filter (\<lambda>p. ServerName (fst p) \<noteq> OwnServerName s) requests"
  obtains
    (db_failed) clock e where
      "trace (run_of ret) = map TimeNow clock @ [DbFetchKeys Background requests1 (Inl e)]"
      "results_of ret = Map.empty" "error_of ret = Some (Upstream e)"
      "requests_after ret = requests1"
  | (db_ok) clock dbResults new results1 where
      "trace (run_of ret) =
         map TimeNow clock @ DbFetchKeys Background requests1 (Inr dbResults) # new @
         (case error_of ret of Some (Unsatisfied req) \<Rightarrow> [LogUnsatisfied req] | _ \<Rightarrow> [])"
      "\<forall>ev\<in>set new. stage_event s Background requests1 (results_of ret) ev"
      "fst ` set dbResults \<subseteq> dom (results_of ret)"
      "set (requests_after ret) \<subseteq> set requests1"
      "requests_after ret \<noteq> [] \<longrightarrow>
         consulted new = map fetcher_FetcherName (KeyFetchers (OurKeyRing s))"
      "\<forall>c b e. DbStoreKeys c b (Some e) \<in> set new \<longrightarrow>
         (\<exists>name n. LogFetcherFailed name n (StoreFailed e) \<in> set new)"
      "error_of ret = map_option Unsatisfied (FetchKeys_check requests (results_of ret))"
      "\<forall>k\<in>fst ` set requests. ServerName k = OwnServerName s \<longrightarrow>
         (\<exists>t\<in>set clock. results1 k = Some (local_result ext s t))"
      "dom results1 \<subseteq> dom (results_of ret)"
      "\<forall>k. k \<notin> fst ` set dbResults \<and>
           (\<forall>name c reqs fr. FetcherFetchKeys name c reqs (Inr fr) \<in> set new \<longrightarrow> k \<notin> fst ` set fr)
           \<longrightarrow> results_of ret k = results1 k"
proof (cases rule: FetchKeys_cases[of ext s requests callerCtx w])
  case (db_failed t rq1 results1 r1 r2 e w2)
  from handleLocalKeys_range_requests[OF db_failed(1)]
  have rq: "rq1 = requests1"
    unfolding requests1_def by (auto intro!: filter_cong)
  from handleLocalKeys_range_trace[OF db_failed(1)] db_failed(2)
  obtain ts where "trace r2 = map TimeNow (t # ts)" by auto
  then have "trace (run_of ret) = map TimeNow (t # ts) @ [DbFetchKeys Background requests1 (Inl e)]"
    unfolding ret_def db_failed(3) rq by (simp add: emit_def)
  then show ?thesis
    by (rule that(1)) (simp_all add: ret_def db_failed(3) rq)
next
  case (db_ok t rq1 results1 r1 r2 dbResults w2 requests2 results2 requests3 results3 r3)
  from handleLocalKeys_range_requests[OF db_ok(1)]
  have rq: "rq1 = requests1"
    unfolding requests1_def by (auto intro!: filter_cong)
  from handleLocalKeys_range_trace[OF db_ok(1)] db_ok(2)
  obtain ts where t2: "trace r2 = map TimeNow (t # ts)" by auto
  have own: "\<forall>k\<in>fst ` set requests. ServerName k = OwnServerName s \<longrightarrow>
         (\<exists>t'\<in>set (t # ts). results1 k = Some (local_result ext s t'))"
  proof (intro ballI impI)
    fix k assume "k \<in> fst ` set requests" and "ServerName k = OwnServerName s"
    then have "k \<in> set (map fst requests)" by simp
    from handleLocalKeys_range_own[OF db_ok(1) this \<open>ServerName k = OwnServerName s\<close>]
    obtain t' where "results1 k = Some (local_result ext s t')" and "TimeNow t' \<in> set (trace r2)"
      by blast
    with t2 show "\<exists>t'\<in>set (t # ts). results1 k = Some (local_result ext s t')" by auto
  qed
  from handleDatabaseKeys_range_requests[OF db_ok(3)] rq have rq2: "set requests2 \<subseteq> set requests1"
    by simp
  from handleDatabaseKeys_range_results[OF db_ok(3)]
  have rs2: "results2 = results1 ++ map_of (rev dbResults)" .
  have dom2: "dom results2 = dom results1 \<union> fst ` set dbResults"
    by (simp add: rs2 dom_map_of_conv_image_fst Un_commute)
  have same2: "k \<notin> fst ` set dbResults \<Longrightarrow> results2 k = results1 k" for k
    using rs2 by (simp add: map_add_dom_app_simps dom_map_of_conv_image_fst)
  from FetchKeys_fetchers_stage[OF db_ok(4)] obtain new where
    rq3: "set requests3 \<subseteq> set requests2" and dom3: "dom results2 \<subseteq> dom results3" and
    t3: "trace r3 = trace (emit (DbFetchKeys Background rq1 (Inr dbResults)) (r2\<lparr>world := w2\<rparr>)) @ new" and
    ev3: "\<forall>ev\<in>set new. stage_event s Background requests2 results3 ev" and
    c3: "requests3 \<noteq> [] \<longrightarrow> consulted new = map fetcher_FetcherName (KeyFetchers (OurKeyRing s))" and
    sf3: "\<forall>c b e. DbStoreKeys c b (Some e) \<in> set new \<longrightarrow>
         (\<exists>name n. LogFetcherFailed name n (StoreFailed e) \<in> set new)" and
    k3: "\<forall>k. (\<forall>name c reqs fr. FetcherFetchKeys name c reqs (Inr fr) \<in> set new \<longrightarrow> k \<notin> fst ` set fr)
           \<longrightarrow> results3 k = results2 k"
    by blast
  have tr: "trace (run_of ret) =
         map TimeNow (t # ts) @ DbFetchKeys Background requests1 (Inr dbResults) # new @
         (case error_of ret of Some (Unsatisfied req) \<Rightarrow> [LogUnsatisfied req] | _ \<Rightarrow> [])"
    unfolding ret_def db_ok(6) db_ok(8) t3 using t2 rq
    by (simp add: emit_def split: option.splits)
  have ev: "\<forall>ev\<in>set new. stage_event s Background requests1 (results_of ret) ev"
    unfolding ret_def db_ok(5) using ev3 rq2 stage_event_mono[OF _ _ subset_refl] by blast
  show ?thesis
  proof (rule that(2)[OF tr ev])
    show "fst ` set dbResults \<subseteq> dom (results_of ret)"
      unfolding ret_def db_ok(5) using dom2 dom3 by blast
    show "set (requests_after ret) \<subseteq> set requests1"
      unfolding ret_def db_ok(7) using rq2 rq3 by blast
    show "requests_after ret \<noteq> [] \<longrightarrow>
         consulted new = map fetcher_FetcherName (KeyFetchers (OurKeyRing s))"
      unfolding ret_def db_ok(7) using c3 .
    show "\<forall>c b e. DbStoreKeys c b (Some e) \<in> set new \<longrightarrow>
         (\<exists>name n. LogFetcherFailed name n (StoreFailed e) \<in> set new)"
      using sf3 .
    show "error_of ret = map_option Unsatisfied (FetchKeys_check requests (results_of ret))"
      unfolding ret_def db_ok(5) db_ok(6) ..
    show "\<forall>k\<in>fst ` set requests. ServerName k = OwnServerName s \<longrightarrow>
         (\<exists>t\<in>set (t # ts). results1 k = Some (local_result ext s t))"
      using own .
    show "dom results1 \<subseteq> dom (results_of ret)"
      unfolding ret_def db_ok(5) using dom2 dom3 by blast
    show "\<forall>k. k \<notin> fst ` set dbResults \<and>
           (\<forall>name c reqs fr. FetcherFetchKeys name c reqs (Inr fr) \<in> set new \<longrightarrow> k \<notin> fst ` set fr)
           \<longrightarrow> results_of ret k = results1 k"
      unfolding ret_def db_ok(5) using k3 same2 by auto
  qed
qed

section \<open>What a call leaves behind\<close>

lemma resolved_append: "resolved ext now (xs @ ys) = resolved ext now xs @ resolved ext now ys"
  by (simp add: resolved_def)

lemma merged_append: "merged (xs @ ys) results = merged ys (merged xs results)"
  by (induction xs arbitrary: results) simp_all

lemma delete_as_filter: "AList.delete k xs = filter (\<lambda>p. fst p \<noteq> k) xs"
  by (induction xs) auto

lemma handleDatabaseKeys_range_exact:
  "handleDatabaseKeys_range ext now fr (requests, results) = (requests', results') \<Longrightarrow>
   requests' = filter (\<lambda>p. fst p \<notin> set (valid_keys ext now fr)) requests"
proof (induction fr arbitrary: requests results)
  case Nil
  then show ?case by (simp add: valid_keys_def)
next
  case (Cons p fr)
  obtain req res where p: "p = (req, res)" by (cases p)
  let ?rq = "if WasValidAt ext res now True then AList.delete req requests else requests"
  from Cons.prems p
  have "handleDatabaseKeys_range ext now fr (?rq, results(req \<mapsto> res)) = (requests', results')"
    by simp
  from Cons.IH[OF this]
  have "requests' = filter (\<lambda>p. fst p \<notin> set (valid_keys ext now fr)) ?rq" .
  then show ?case using p
    by (auto simp: valid_keys_def delete_as_filter intro!: filter_cong)
qed

lemma handleFetcherKeys_range_exact:
  "handleFetcherKeys_range ext s now fr (requests, results, store) = (requests', results', store') \<Longrightarrow>
   requests' = filter (\<lambda>p. fst p \<notin> set (valid_keys ext now fr)) requests"
proof (induction fr arbitrary: requests results store)
  case Nil
  then show ?case by (simp add: valid_keys_def)
next
  case (Cons p fr)
  obtain req res where p: "p = (req, res)" by (cases p)
  let ?rq = "if WasValidAt ext res now True then AList.delete req requests else requests"
  from Cons.prems p
  obtain store1 where
    "handleFetcherKeys_range ext s now fr (?rq, results(req \<mapsto> res), store1) = (requests', results', store')"
    by simp
  from Cons.IH[OF this]
  have "requests' = filter (\<lambda>p. fst p \<notin> set (valid_keys ext now fr)) ?rq" .
  then show ?case using p
    by (auto simp: valid_keys_def delete_as_filter intro!: filter_cong)
qed

lemma handleFetcherKeys_exact:
  assumes "handleFetcherKeys ext s ctx now f requests results r = (err, requests', results', r')"
  shows "\<exists>new. trace r' = trace r @ new \<and>
           requests' = filter (\<lambda>p. fst p \<notin> set (resolved ext now new)) requests \<and>
           results' = merged new results"
  using assms
proof (cases rule: handleFetcherKeys_cases)
  case (fetch_failed e w1)
  then show ?thesis by (simp add: resolved_def valid_keys_def)
next
  case (stored fr w1 store w2)
  from handleFetcherKeys_range_exact[OF stored(2)] handleFetcherKeys_range_results[OF stored(2)] stored(5)
  show ?thesis by (simp add: resolved_def) (simp add: valid_keys_def)
next
  case (store_failed fr w1 store e w2)
  from handleFetcherKeys_range_exact[OF store_failed(2)] handleFetcherKeys_range_results[OF store_failed(2)]
    store_failed(5)
  show ?thesis by (simp add: resolved_def) (simp add: valid_keys_def)
qed

lemma FetchKeys_fetchers_exact:
  "FetchKeys_fetchers ext s ctx now fs (requests, results, r) = (requests', results', r') \<Longrightarrow>
   \<exists>new. trace r' = trace r @ new \<and>
      requests' = filter (\<lambda>p. fst p \<notin> set (resolved ext now new)) requests \<and>
      results' = merged new results"
proof (induction fs arbitrary: requests results r)
  case Nil
  then show ?case by (simp add: resolved_def)
next
  case (Cons f fs)
  show ?case
  proof (cases "requests = []")
    case True
    with Cons.prems show ?thesis by (simp add: resolved_def)
  next
    case False
    obtain err rq1 rs1 r1 where
      h: "handleFetcherKeys ext s ctx now f requests results r = (err, rq1, rs1, r1)"
      by (cases "handleFetcherKeys ext s ctx now f requests results r")
    define logs where
      "logs = (case err of None \<Rightarrow> []
               | Some e \<Rightarrow> [LogFetcherFailed (fetcher_FetcherName f) (length rq1) e])"
    define r1' where "r1' = r1\<lparr>trace := trace r1 @ logs\<rparr>"
    from Cons.prems False h
    have step: "FetchKeys_fetchers ext s ctx now fs (rq1, rs1, r1') = (requests', results', r')"
      by (cases err) (simp_all add: r1'_def logs_def emit_def)
    from handleFetcherKeys_exact[OF h] obtain new1 where
      t1: "trace r1 = trace r @ new1" and
      q1: "rq1 = filter (\<lambda>p. fst p \<notin> set (resolved ext now new1)) requests" and
      m1: "rs1 = merged new1 results"
      by blast
    from Cons.IH[OF step] obtain new2 where
      t2: "trace r' = trace r1' @ new2" and
      q2: "requests' = filter (\<lambda>p. fst p \<notin> set (resolved ext now new2)) rq1" and
      m2: "results' = merged new2 rs1"
      by blast
    have logs_resolved: "resolved ext now logs = []"
      by (cases err) (simp_all add: logs_def resolved_def valid_keys_def)
    have logs_merged: "merged logs rs = rs" for rs
      by (cases err) (simp_all add: logs_def)
    let ?new = "new1 @ logs @ new2"
    have "trace r' = trace r @ ?new" using t1 t2 by (simp add: r1'_def)
    moreover have "requests' = filter (\<lambda>p. fst p \<notin> set (resolved ext now ?new)) requests"
      unfolding q2 q1 by (auto simp: resolved_append logs_resolved intro!: filter_cong)
    moreover have "results' = merged ?new results"
      unfolding m2 m1 by (simp add: merged_append logs_merged)
    ultimately show ?thesis by blast
  qed
qed

lemma resolved_clock: "resolved ext now (map TimeNow clock) = []"
  by (induction clock) (simp_all add: resolved_def valid_keys_def)

lemma merged_clock: "merged (map TimeNow clock) results = results"
  by (induction clock) simp_all

lemma FetchKeys_leaves:
  fixes ext :: "'w extern" and s :: "'w ServerKeyAPI"
    and callerCtx :: "context" and requests :: Requests and w :: 'w
  defines "ret \<equiv> FetchKeys ext s callerCtx requests w"
  obtains t rest selfKeys where
    "trace (run_of ret) = TimeNow t # rest"
    "requests_after ret =
       filter (\<lambda>p. ServerName (fst p) \<noteq> OwnServerName s \<and>
                   fst p \<notin> set (resolved ext (AsTimestamp ext t) (trace (run_of ret)))) requests"
    "dom selfKeys = {req \<in> fst ` set requests. ServerName req = OwnServerName s}"
    "(\<forall>ev\<in>set (trace (run_of ret)). \<not> is_db_failure ev) \<longrightarrow>
       results_of ret = merged (trace (run_of ret)) selfKeys"
    "\<forall>req\<in>dom selfKeys. \<exists>t'. TimeNow t' \<in> set (trace (run_of ret)) \<and>
       selfKeys req = Some (local_result ext s t')"
proof (cases rule: FetchKeys_cases[of ext s requests callerCtx w])
  case (db_failed t rq1 results1 r1 r2 e w2)
  from handleLocalKeys_range_requests[OF db_failed(1)]
  have rq: "rq1 = filter (\<lambda>p. ServerName (fst p) \<noteq> OwnServerName s) requests"
    by (auto intro!: filter_cong)
  from handleLocalKeys_range_trace[OF db_failed(1)] db_failed(2)
  obtain ts where t2: "trace r2 = map TimeNow (t # ts)" by auto
  have tr: "trace (run_of ret) = TimeNow t # (map TimeNow ts @ [DbFetchKeys Background rq1 (Inl e)])"
    unfolding ret_def db_failed(3) using t2 by (simp add: emit_def)
  have res: "resolved ext (AsTimestamp ext t) (trace (run_of ret)) = []"
    unfolding tr using resolved_clock[of ext "AsTimestamp ext t" "t # ts"]
    by (simp add: resolved_def valid_keys_def)
  have after: "requests_after ret =
       filter (\<lambda>p. ServerName (fst p) \<noteq> OwnServerName s \<and>
                   fst p \<notin> set (resolved ext (AsTimestamp ext t) (trace (run_of ret)))) requests"
    using res[unfolded ret_def] by (simp add: ret_def db_failed(3) rq)
  have dom: "dom results1 = {req \<in> fst ` set requests. ServerName req = OwnServerName s}"
  proof (intro set_eqI iffI)
    fix k assume "k \<in> dom results1"
    then have "results1 k \<noteq> None" by auto
    with handleLocalKeys_range_other[OF db_failed(1), of k]
    show "k \<in> {req \<in> fst ` set requests. ServerName req = OwnServerName s}" by auto
  next
    fix k assume "k \<in> {req \<in> fst ` set requests. ServerName req = OwnServerName s}"
    then have "k \<in> set (map fst requests)" and "ServerName k = OwnServerName s" by auto
    from handleLocalKeys_range_own[OF db_failed(1) this] show "k \<in> dom results1" by auto
  qed
  have "\<not> (\<forall>ev\<in>set (trace (run_of ret)). \<not> is_db_failure ev)"
    unfolding tr by simp
  then have "(\<forall>ev\<in>set (trace (run_of ret)). \<not> is_db_failure ev) \<longrightarrow>
       results_of ret = merged (trace (run_of ret)) results1" by blast
  moreover have "\<forall>req\<in>dom results1. \<exists>t'. TimeNow t' \<in> set (trace (run_of ret)) \<and>
       results1 req = Some (local_result ext s t')"
  proof
    fix k assume "k \<in> dom results1"
    with dom have "k \<in> set (map fst requests)" and "ServerName k = OwnServerName s" by auto
    from handleLocalKeys_range_own[OF db_failed(1) this] obtain t' where
      "results1 k = Some (local_result ext s t')" and "TimeNow t' \<in> set (trace r2)" by blast
    moreover from this(2) have "TimeNow t' \<in> set (trace (run_of ret))"
      unfolding tr t2 by auto
    ultimately show "\<exists>t'. TimeNow t' \<in> set (trace (run_of ret)) \<and>
       results1 k = Some (local_result ext s t')" by blast
  qed
  ultimately show ?thesis by (rule that[OF tr after dom])
next
  case (db_ok t rq1 results1 r1 r2 dbResults w2 requests2 results2 requests3 results3 r3)
  from handleLocalKeys_range_requests[OF db_ok(1)]
  have rq: "rq1 = filter (\<lambda>p. ServerName (fst p) \<noteq> OwnServerName s) requests"
    by (auto intro!: filter_cong)
  from handleLocalKeys_range_trace[OF db_ok(1)] db_ok(2)
  obtain ts where t2: "trace r2 = map TimeNow (t # ts)" by auto
  let ?db = "DbFetchKeys Background rq1 (Inr dbResults)"
  let ?now = "AsTimestamp ext t"
  from FetchKeys_fetchers_exact[OF db_ok(4)] obtain new where
    t3: "trace r3 = trace (emit ?db (r2\<lparr>world := w2\<rparr>)) @ new" and
    q3: "requests3 = filter (\<lambda>p. fst p \<notin> set (resolved ext ?now new)) requests2" and
    m3: "results3 = merged new results2"
    by blast
  define logs where "logs = (case FetchKeys_check requests results3 of None \<Rightarrow> []
                             | Some req \<Rightarrow> [LogUnsatisfied req])"
  have tr: "trace (run_of ret) = TimeNow t # (map TimeNow ts @ ?db # new @ logs)"
    unfolding ret_def db_ok(8) t3 logs_def using t2 by (simp add: emit_def)
  have logs_resolved: "resolved ext ?now logs = []"
    by (cases "FetchKeys_check requests results3") (simp_all add: logs_def resolved_def valid_keys_def)
  have logs_merged: "merged logs rs = rs" for rs
    by (cases "FetchKeys_check requests results3") (simp_all add: logs_def)
  have res: "resolved ext ?now (trace (run_of ret)) = valid_keys ext ?now dbResults @ resolved ext ?now new"
  proof -
    have "trace (run_of ret) = map TimeNow (t # ts) @ [?db] @ new @ logs"
      unfolding tr by simp
    then have "resolved ext ?now (trace (run_of ret)) =
          resolved ext ?now (map TimeNow (t # ts)) @ resolved ext ?now [?db] @ resolved ext ?now new @
          resolved ext ?now logs"
      by (simp only: resolved_append)
    moreover have "resolved ext ?now [?db] = valid_keys ext ?now dbResults"
      by (simp add: resolved_def)
    ultimately show ?thesis by (simp only: resolved_clock logs_resolved) simp
  qed
  from handleDatabaseKeys_range_exact[OF db_ok(3)]
  have q2: "requests2 = filter (\<lambda>p. fst p \<notin> set (valid_keys ext ?now dbResults)) rq1" .
  have after: "requests_after ret =
       filter (\<lambda>p. ServerName (fst p) \<noteq> OwnServerName s \<and>
                   fst p \<notin> set (resolved ext ?now (trace (run_of ret)))) requests"
    unfolding ret_def db_ok(7) q3 q2 rq using res[unfolded ret_def]
    by (auto intro!: filter_cong)
  have dom: "dom results1 = {req \<in> fst ` set requests. ServerName req = OwnServerName s}"
  proof (intro set_eqI iffI)
    fix k assume "k \<in> dom results1"
    then have "results1 k \<noteq> None" by auto
    with handleLocalKeys_range_other[OF db_ok(1), of k]
    show "k \<in> {req \<in> fst ` set requests. ServerName req = OwnServerName s}" by auto
  next
    fix k assume "k \<in> {req \<in> fst ` set requests. ServerName req = OwnServerName s}"
    then have "k \<in> set (map fst requests)" and "ServerName k = OwnServerName s" by auto
    from handleLocalKeys_range_own[OF db_ok(1) this] show "k \<in> dom results1" by auto
  qed
  from handleDatabaseKeys_range_results[OF db_ok(3)]
  have m2: "results2 = results1 ++ map_of (rev dbResults)" .
  have "merged (trace (run_of ret)) results1 = merged logs (merged new (merged [?db] (merged (map TimeNow (t # ts)) results1)))"
    unfolding tr by (simp only: merged_append[symmetric]) simp
  also have "\<dots> = merged new (results1 ++ map_of (rev dbResults))"
    by (simp only: logs_merged merged_clock) simp
  finally have "results_of ret = merged (trace (run_of ret)) results1"
    unfolding ret_def db_ok(5) m3 m2 by simp
  then have "(\<forall>ev\<in>set (trace (run_of ret)). \<not> is_db_failure ev) \<longrightarrow>
       results_of ret = merged (trace (run_of ret)) results1" by blast
  moreover have "\<forall>req\<in>dom results1. \<exists>t'. TimeNow t' \<in> set (trace (run_of ret)) \<and>
       results1 req = Some (local_result ext s t')"
  proof
    fix k assume "k \<in> dom results1"
    with dom have "k \<in> set (map fst requests)" and "ServerName k = OwnServerName s" by auto
    from handleLocalKeys_range_own[OF db_ok(1) this] obtain t' where
      "results1 k = Some (local_result ext s t')" and "TimeNow t' \<in> set (trace r2)" by blast
    moreover from this(2) have "TimeNow t' \<in> set (trace (run_of ret))"
      unfolding tr t2 by auto
    ultimately show "\<exists>t'. TimeNow t' \<in> set (trace (run_of ret)) \<and>
       results1 k = Some (local_result ext s t')" by blast
  qed
  ultimately show ?thesis by (rule that[OF tr after dom])
qed

section \<open>Claims about the server key API\<close>

lemmas ex_defs = ext_ex_def reqA_def reqB_def reqC_def reqD_def res_until_def fetcher_ex_def db_ex_def
  api_ex_def

lemmas run_defs = FetchKeys_def handleLocalKeys_def handleDatabaseKeys_def handleFetcherKeys_def
  read_clock_def emit_def local_result_def Second_def Let_def

lemma stage_event_store:
  "stage_event s ctx rq rs (DbStoreKeys c batch serr) \<Longrightarrow> ServerName k = OwnServerName s \<Longrightarrow>
   batch k = None"
  by (simp add: stage_event_def)

text \<open>
  C7. In every call of \<^verbatim>\<open>FetchKeys\<close>, whatever the database and the fetchers answer, a
  batch passed to the database's store holds no entry for a request whose server name is
  the server's own.
\<close>

theorem own_keys_never_stored:
  assumes "DbStoreKeys c batch serr \<in> set (trace (run_of (FetchKeys ext s callerCtx requests w)))"
    and "ServerName req = OwnServerName s"
  shows "batch req = None"
proof (cases rule: FetchKeys_shape[of ext s callerCtx requests w])
  case (db_failed clock e)
  with assms(1) show ?thesis by auto
next
  case (db_ok clock dbResults new results1)
  from assms(1) have "DbStoreKeys c batch serr \<in> set new"
    unfolding db_ok(1) by (auto split: option.splits error.splits)
  with db_ok(2) have "stage_event s Background
      (filter (\<lambda>p. ServerName (fst p) \<noteq> OwnServerName s) requests)
      (results_of (FetchKeys ext s callerCtx requests w)) (DbStoreKeys c batch serr)"
    by blast
  then show ?thesis using assms(2) by (rule stage_event_store)
qed

text \<open>
  A run in which the fetcher returns, unasked, a newer result under the server's own name
  next to the result for the remote request: the store gets the remote one alone.
\<close>

theorem own_keys_never_stored_witness:
  "DbStoreKeys Background [reqB \<mapsto> res_until 500] None \<in>
     set (trace (run_of (FetchKeys ext_ex
       (api_ex (db_ex (Inr []) (\<lambda>n. None))
          [fetcher_ex ''f1'' (Inr [(reqA, res_until 900), (reqB, res_until 500)])])
       Background [(reqA, 0), (reqB, 0)] 0)))
   \<and> ServerName reqA = OwnServerName (api_ex (db_ex (Inr []) (\<lambda>n. None))
          [fetcher_ex ''f1'' (Inr [(reqA, res_until 900), (reqB, res_until 500)])])
   \<and> [reqB \<mapsto> res_until 500] reqA = None"
proof -
  have mem: "DbStoreKeys Background [reqB \<mapsto> res_until 500] None \<in>
     set (trace (run_of (FetchKeys ext_ex
       (api_ex (db_ex (Inr []) (\<lambda>n. None))
          [fetcher_ex ''f1'' (Inr [(reqA, res_until 900), (reqB, res_until 500)])])
       Background [(reqA, 0), (reqB, 0)] 0)))"
    by (simp add: ex_defs run_defs)
  have own: "ServerName reqA = OwnServerName (api_ex (db_ex (Inr []) (\<lambda>n. None))
          [fetcher_ex ''f1'' (Inr [(reqA, res_until 900), (reqB, res_until 500)])])"
    by (simp add: ex_defs)
  from own_keys_never_stored[OF mem own] mem own show ?thesis by blast
qed

lemma stage_event_kind:
  "stage_event s ctx rq rs ev \<Longrightarrow> \<not> is_db_failure ev \<and> (\<forall>c reqs resp. ev \<noteq> DbFetchKeys c reqs resp)"
  by (cases ev) (simp_all add: stage_event_def)

lemma stage_event_answered:
  "stage_event s ctx rq rs ev \<Longrightarrow> set (answered ev) \<subseteq> dom rs"
  by (cases ev rule: answered.cases) (simp_all add: stage_event_def)

text \<open>
  C3. When the database's batch fetch returns an error, \<^verbatim>\<open>FetchKeys\<close> returns that error
  with a nil map (nothing in it, so nothing beyond the self keys), and no fetcher is asked
  and no store is issued in the call.
\<close>

theorem database_error_aborts:
  assumes "DbFetchKeys c reqs (Inl e) \<in> set (trace (run_of (FetchKeys ext s callerCtx requests w)))"
  shows "results_of (FetchKeys ext s callerCtx requests w) = Map.empty \<and>
         error_of (FetchKeys ext s callerCtx requests w) = Some (Upstream e) \<and>
         (\<forall>ev\<in>set (trace (run_of (FetchKeys ext s callerCtx requests w))).
            \<not> is_fetcher_call ev \<and> \<not> is_store_call ev)"
proof (cases rule: FetchKeys_shape[of ext s callerCtx requests w])
  case (db_failed clock e')
  from assms have "e' = e" unfolding db_failed(1) by auto
  with db_failed show ?thesis by auto
next
  case (db_ok clock dbResults new results1)
  from assms have "DbFetchKeys c reqs (Inl e) \<in> set new"
    unfolding db_ok(1) by (auto split: option.splits error.splits)
  with db_ok(2) stage_event_kind show ?thesis by blast
qed

text \<open>
  A run with a request under the server's own name and a remote one, a database that fails
  and a fetcher that would answer: the call returns the database's error and no entry.
\<close>

theorem database_error_aborts_witness:
  "DbFetchKeys Background [(reqB, 0)] (Inl ''connection lost'') \<in>
     set (trace (run_of (FetchKeys ext_ex
       (api_ex (db_ex (Inl ''connection lost'') (\<lambda>n. None))
          [fetcher_ex ''f1'' (Inr [(reqB, res_until 500)])])
       Background [(reqA, 0), (reqB, 0)] 0)))
   \<and> results_of (FetchKeys ext_ex
       (api_ex (db_ex (Inl ''connection lost'') (\<lambda>n. None))
          [fetcher_ex ''f1'' (Inr [(reqB, res_until 500)])])
       Background [(reqA, 0), (reqB, 0)] 0) = Map.empty
   \<and> error_of (FetchKeys ext_ex
       (api_ex (db_ex (Inl ''connection lost'') (\<lambda>n. None))
          [fetcher_ex ''f1'' (Inr [(reqB, res_until 500)])])
       Background [(reqA, 0), (reqB, 0)] 0) = Some (Upstream ''connection lost'')
   \<and> consulted (trace (run_of (FetchKeys ext_ex
       (api_ex (db_ex (Inl ''connection lost'') (\<lambda>n. None))
          [fetcher_ex ''f1'' (Inr [(reqB, res_until 500)])])
       Background [(reqA, 0), (reqB, 0)] 0))) = []"
proof -
  have mem: "DbFetchKeys Background [(reqB, 0)] (Inl ''connection lost'') \<in>
     set (trace (run_of (FetchKeys ext_ex
       (api_ex (db_ex (Inl ''connection lost'') (\<lambda>n. None))
          [fetcher_ex ''f1'' (Inr [(reqB, res_until 500)])])
       Background [(reqA, 0), (reqB, 0)] 0)))"
    by (simp add: ex_defs run_defs)
  have "consulted (trace (run_of (FetchKeys ext_ex
       (api_ex (db_ex (Inl ''connection lost'') (\<lambda>n. None))
          [fetcher_ex ''f1'' (Inr [(reqB, res_until 500)])])
       Background [(reqA, 0), (reqB, 0)] 0))) = []"
    by (simp add: ex_defs run_defs)
  with database_error_aborts[OF mem] mem show ?thesis by blast
qed

lemma completeness_entries:
  assumes "\<forall>ev\<in>set (trace (run_of (FetchKeys ext s callerCtx requests w))). \<not> is_db_failure ev"
  shows "(case error_of (FetchKeys ext s callerCtx requests w) of
            None \<Rightarrow> \<forall>req\<in>fst ` set requests. results_of (FetchKeys ext s callerCtx requests w) req \<noteq> None
          | Some err \<Rightarrow> \<exists>req\<in>fst ` set requests. err = Unsatisfied req \<and>
                          results_of (FetchKeys ext s callerCtx requests w) req = None) \<and>
         (\<forall>req\<in>fst ` set requests. ServerName req = OwnServerName s \<longrightarrow>
            results_of (FetchKeys ext s callerCtx requests w) req \<noteq> None) \<and>
         (\<forall>ev\<in>set (trace (run_of (FetchKeys ext s callerCtx requests w))).
            \<forall>req\<in>set (answered ev). results_of (FetchKeys ext s callerCtx requests w) req \<noteq> None)"
proof (cases rule: FetchKeys_shape[of ext s callerCtx requests w])
  case (db_failed clock e)
  with assms show ?thesis by simp
next
  case (db_ok clock dbResults new results1)
  let ?ret = "FetchKeys ext s callerCtx requests w"
  have err: "(case error_of ?ret of
            None \<Rightarrow> \<forall>req\<in>fst ` set requests. results_of ?ret req \<noteq> None
          | Some err \<Rightarrow> \<exists>req\<in>fst ` set requests. err = Unsatisfied req \<and> results_of ?ret req = None)"
  proof (cases "FetchKeys_check requests (results_of ?ret)")
    case None
    with db_ok(7) have e: "error_of ?ret = None" by simp
    from None have "\<forall>req\<in>fst ` set requests. results_of ?ret req \<noteq> None"
      by (simp only: FetchKeys_check_None)
    with e show ?thesis by simp
  next
    case (Some req)
    with db_ok(7) have e: "error_of ?ret = Some (Unsatisfied req)" by simp
    from FetchKeys_check_Some[OF Some] e show ?thesis by auto
  qed
  have own: "\<forall>req\<in>fst ` set requests. ServerName req = OwnServerName s \<longrightarrow> results_of ?ret req \<noteq> None"
    using db_ok(8) db_ok(9) by (metis domI domIff subsetD)
  have ans: "\<forall>ev\<in>set (trace (run_of ?ret)). \<forall>req\<in>set (answered ev). results_of ?ret req \<noteq> None"
  proof (intro ballI)
    fix ev req assume ev: "ev \<in> set (trace (run_of ?ret))" and req: "req \<in> set (answered ev)"
    from ev consider "ev \<in> TimeNow ` set clock"
      | "ev = DbFetchKeys Background (filter (\<lambda>p. ServerName (fst p) \<noteq> OwnServerName s) requests) (Inr dbResults)"
      | "ev \<in> set new" | "\<exists>r. ev = LogUnsatisfied r"
      unfolding db_ok(1) by (auto split: option.splits error.splits)
    then show "results_of ?ret req \<noteq> None"
    proof cases
      case 1
      with req show ?thesis by auto
    next
      case 2
      with req db_ok(3) show ?thesis by auto
    next
      case 3
      with db_ok(2) have "stage_event s Background
          (filter (\<lambda>p. ServerName (fst p) \<noteq> OwnServerName s) requests) (results_of ?ret) ev"
        by blast
      from stage_event_answered[OF this] req show ?thesis by auto
    next
      case 4
      with req show ?thesis by auto
    qed
  qed
  from err own ans show ?thesis by blast
qed

text \<open>
  C5, as amended. In a call whose database fetch does not fail (the call reaches the
  completeness check): the call returns an error exactly when a request of the original
  batch has no entry in the returned results, and the error names such a request. The
  results are returned either way, and they are what the stages have accumulated: the
  entries built from the server's own key for the requests of the server's own name
  (each with a reading of the clock taken in the call), with every answer of the database
  and of the fetchers written over them in the order of the calls. So they hold
  an entry for every own-name request of the batch and for every request that was
  answered.
\<close>

theorem completeness_check:
  assumes "\<forall>ev\<in>set (trace (run_of (FetchKeys ext s callerCtx requests w))). \<not> is_db_failure ev"
  shows "(case error_of (FetchKeys ext s callerCtx requests w) of
            None \<Rightarrow> \<forall>req\<in>fst ` set requests. results_of (FetchKeys ext s callerCtx requests w) req \<noteq> None
          | Some err \<Rightarrow> \<exists>req\<in>fst ` set requests. err = Unsatisfied req \<and>
                          results_of (FetchKeys ext s callerCtx requests w) req = None) \<and>
         (\<forall>req\<in>fst ` set requests. ServerName req = OwnServerName s \<longrightarrow>
            results_of (FetchKeys ext s callerCtx requests w) req \<noteq> None) \<and>
         (\<forall>ev\<in>set (trace (run_of (FetchKeys ext s callerCtx requests w))).
            \<forall>req\<in>set (answered ev). results_of (FetchKeys ext s callerCtx requests w) req \<noteq> None) \<and>
         (\<exists>selfKeys.
            dom selfKeys = {req \<in> fst ` set requests. ServerName req = OwnServerName s} \<and>
            (\<forall>req\<in>dom selfKeys. \<exists>t.
               TimeNow t \<in> set (trace (run_of (FetchKeys ext s callerCtx requests w))) \<and>
               selfKeys req = Some (local_result ext s t)) \<and>
            results_of (FetchKeys ext s callerCtx requests w) =
              merged (trace (run_of (FetchKeys ext s callerCtx requests w))) selfKeys)"
proof -
  obtain t rest selfKeys where
    "dom selfKeys = {req \<in> fst ` set requests. ServerName req = OwnServerName s}" and
    "(\<forall>ev\<in>set (trace (run_of (FetchKeys ext s callerCtx requests w))). \<not> is_db_failure ev) \<longrightarrow>
       results_of (FetchKeys ext s callerCtx requests w) =
         merged (trace (run_of (FetchKeys ext s callerCtx requests w))) selfKeys" and
    "\<forall>req\<in>dom selfKeys. \<exists>t.
       TimeNow t \<in> set (trace (run_of (FetchKeys ext s callerCtx requests w))) \<and>
       selfKeys req = Some (local_result ext s t)"
    by (rule FetchKeys_leaves[of ext s callerCtx requests w])
  with assms have "\<exists>selfKeys.
            dom selfKeys = {req \<in> fst ` set requests. ServerName req = OwnServerName s} \<and>
            (\<forall>req\<in>dom selfKeys. \<exists>t.
               TimeNow t \<in> set (trace (run_of (FetchKeys ext s callerCtx requests w))) \<and>
               selfKeys req = Some (local_result ext s t)) \<and>
            results_of (FetchKeys ext s callerCtx requests w) =
              merged (trace (run_of (FetchKeys ext s callerCtx requests w))) selfKeys"
    by blast
  with completeness_entries[OF assms] show ?thesis by blast
qed

text \<open>
  A batch of the server's own request and two remote ones. The database answers the first
  remote request with a stale result, the fetcher with a fresh one, and nobody answers the
  second: the call reports the second and returns the self key and the fetcher's result.
\<close>

theorem completeness_check_witness:
  "list_all (\<lambda>ev. \<not> is_db_failure ev)
     (trace (run_of (FetchKeys ext_ex
        (api_ex (db_ex (Inr [(reqB, res_until 200)]) (\<lambda>n. None))
           [fetcher_ex ''f1'' (Inr [(reqB, res_until 500)])])
        Background [(reqA, 0), (reqB, 0), (reqC, 0)] 0)))
   \<and> error_of (FetchKeys ext_ex
        (api_ex (db_ex (Inr [(reqB, res_until 200)]) (\<lambda>n. None))
           [fetcher_ex ''f1'' (Inr [(reqB, res_until 500)])])
        Background [(reqA, 0), (reqB, 0), (reqC, 0)] 0) = Some (Unsatisfied reqC)
   \<and> results_of (FetchKeys ext_ex
        (api_ex (db_ex (Inr [(reqB, res_until 200)]) (\<lambda>n. None))
           [fetcher_ex ''f1'' (Inr [(reqB, res_until 500)])])
        Background [(reqA, 0), (reqB, 0), (reqC, 0)] 0) reqC = None
   \<and> results_of (FetchKeys ext_ex
        (api_ex (db_ex (Inr [(reqB, res_until 200)]) (\<lambda>n. None))
           [fetcher_ex ''f1'' (Inr [(reqB, res_until 500)])])
        Background [(reqA, 0), (reqB, 0), (reqC, 0)] 0) reqB = Some (res_until 500)
   \<and> results_of (FetchKeys ext_ex
        (api_ex (db_ex (Inr [(reqB, res_until 200)]) (\<lambda>n. None))
           [fetcher_ex ''f1'' (Inr [(reqB, res_until 500)])])
        Background [(reqA, 0), (reqB, 0), (reqC, 0)] 0) reqA =
       Some \<lparr>VerifyKey = \<lparr>Key = [7]\<rparr>, ExpiredTS = 0, ValidUntilTS = 400\<rparr>"
proof -
  let ?api = "api_ex (db_ex (Inr [(reqB, res_until 200)]) (\<lambda>n. None))
           [fetcher_ex ''f1'' (Inr [(reqB, res_until 500)])]"
  let ?ret = "FetchKeys ext_ex ?api Background [(reqA, 0), (reqB, 0), (reqC, 0)] 0"
  have tr: "trace (run_of ?ret) =
      [TimeNow 300, TimeNow 300,
       DbFetchKeys Background [(reqB, 0), (reqC, 0)] (Inr [(reqB, res_until 200)]),
       FetcherFetchKeys ''f1'' (WithTimeout Background (Second * 30)) [(reqB, 0), (reqC, 0)]
         (Inr [(reqB, res_until 500)]),
       DbStoreKeys Background [reqB \<mapsto> res_until 500] None,
       LogUnsatisfied reqC]"
    by (simp add: ex_defs run_defs)
  have hyp: "\<forall>ev\<in>set (trace (run_of ?ret)). \<not> is_db_failure ev"
    unfolding tr by simp
  have err: "error_of ?ret = Some (Unsatisfied reqC)"
    by (simp add: ex_defs run_defs)
  have own: "reqA \<in> fst ` set [(reqA, 0::Timestamp), (reqB, 0), (reqC, 0)] \<and>
             ServerName reqA = OwnServerName ?api"
    by (simp add: ex_defs)
  note cc = completeness_check[OF hyp]
  from cc err have c: "results_of ?ret reqC = None" by auto
  from cc have "\<exists>selfKeys.
      dom selfKeys = {req \<in> fst ` set [(reqA, 0::Timestamp), (reqB, 0), (reqC, 0)].
                         ServerName req = OwnServerName ?api} \<and>
      (\<forall>req\<in>dom selfKeys. \<exists>t. TimeNow t \<in> set (trace (run_of ?ret)) \<and>
          selfKeys req = Some (local_result ext_ex ?api t)) \<and>
      results_of ?ret = merged (trace (run_of ?ret)) selfKeys"
    by (elim conjE)
  then obtain selfKeys where
    d: "dom selfKeys = {req \<in> fst ` set [(reqA, 0::Timestamp), (reqB, 0), (reqC, 0)].
                         ServerName req = OwnServerName ?api}" and
    k: "\<forall>req\<in>dom selfKeys. \<exists>t. TimeNow t \<in> set (trace (run_of ?ret)) \<and>
          selfKeys req = Some (local_result ext_ex ?api t)" and
    m: "results_of ?ret = merged (trace (run_of ?ret)) selfKeys"
    by (elim exE conjE)
  from m have b: "results_of ?ret reqB = Some (res_until 500)"
    unfolding tr by simp
  have "reqA \<in> dom selfKeys" unfolding d using own by blast
  with k obtain t where "TimeNow t \<in> set (trace (run_of ?ret))" and
    "selfKeys reqA = Some (local_result ext_ex ?api t)" by blast
  then have "selfKeys reqA = Some \<lparr>VerifyKey = \<lparr>Key = [7]\<rparr>, ExpiredTS = 0, ValidUntilTS = 400\<rparr>"
    unfolding tr by (auto simp: ex_defs local_result_def)
  with m have a: "results_of ?ret reqA =
      Some \<lparr>VerifyKey = \<lparr>Key = [7]\<rparr>, ExpiredTS = 0, ValidUntilTS = 400\<rparr>"
    unfolding tr by (simp add: ex_defs map_add_def)
  from hyp err a b c show ?thesis by (simp add: list_all_iff)
qed

text \<open>
  A run against the claim as it was stated: the batch is the server's own request, which
  the self-key stage resolves, and the database's fetch fails. The call returns an error
  although the only request of the batch had its entry, and returns no entry at all.
\<close>

theorem completeness_check_counterexample:
  "(case handleLocalKeys ext_ex (api_ex (db_ex (Inl ''connection lost'') (\<lambda>n. None)) [])
          [(reqA, 0)] Map.empty \<lparr>world = 0, trace = [TimeNow 300]\<rparr> of
      (requests1, results1, r1) \<Rightarrow> results1 reqA) =
     Some (local_result ext_ex (api_ex (db_ex (Inl ''connection lost'') (\<lambda>n. None)) []) 300) \<and>
   error_of (FetchKeys ext_ex (api_ex (db_ex (Inl ''connection lost'') (\<lambda>n. None)) [])
      Background [(reqA, 0)] 0) = Some (Upstream ''connection lost'') \<and>
   results_of (FetchKeys ext_ex (api_ex (db_ex (Inl ''connection lost'') (\<lambda>n. None)) [])
      Background [(reqA, 0)] 0) reqA = None"
  by (simp add: ex_defs run_defs)

lemma stage_event_asked:
  "stage_event s ctx rq rs ev \<Longrightarrow> set (asked ev) \<subseteq> fst ` set rq"
  by (cases ev) (auto simp: stage_event_def)

lemma stage_event_context:
  "stage_event s ctx rq rs ev \<Longrightarrow> context_of ev = Some c \<Longrightarrow>
   c = (if is_fetcher_call ev then WithTimeout ctx (Second * 30) else ctx)"
  by (cases ev) (auto simp: stage_event_def)

text \<open>
  C4, as amended. A request of the batch under the server's own name is in no batch
  passed to the database or to a fetcher. When the database's fetch does not fail and
  neither the database nor a fetcher returns an entry for that request, its entry in the
  returned results is the one built from the server's own public key, never expired,
  valid until a reading of the clock taken in the call plus the configured validity.
\<close>

theorem own_requests_short_circuit:
  assumes "(req, ts) \<in> set requests" and "ServerName req = OwnServerName s"
  shows "(\<forall>ev\<in>set (trace (run_of (FetchKeys ext s callerCtx requests w))). req \<notin> set (asked ev)) \<and>
         ((\<forall>ev\<in>set (trace (run_of (FetchKeys ext s callerCtx requests w))).
             \<not> is_db_failure ev \<and> req \<notin> set (answered ev)) \<longrightarrow>
          (\<exists>t. TimeNow t \<in> set (trace (run_of (FetchKeys ext s callerCtx requests w))) \<and>
               results_of (FetchKeys ext s callerCtx requests w) req =
                 Some \<lparr>VerifyKey = \<lparr>Key = ServerPublicKey s\<rparr>,
                       ExpiredTS = PublicKeyNotExpired ext,
                       ValidUntilTS = AsTimestamp ext (t + ServerKeyValidity s)\<rparr>))"
proof (cases rule: FetchKeys_shape[of ext s callerCtx requests w])
  case (db_failed clock e)
  let ?ret = "FetchKeys ext s callerCtx requests w"
  have "\<forall>ev\<in>set (trace (run_of ?ret)). req \<notin> set (asked ev)"
    unfolding db_failed(1) using assms(2) by auto
  moreover have "\<not> (\<forall>ev\<in>set (trace (run_of ?ret)). \<not> is_db_failure ev \<and> req \<notin> set (answered ev))"
    unfolding db_failed(1) by simp
  ultimately show ?thesis by blast
next
  case (db_ok clock dbResults new results1)
  let ?ret = "FetchKeys ext s callerCtx requests w"
  let ?rq1 = "filter (\<lambda>p. ServerName (fst p) \<noteq> OwnServerName s) requests"
  have notin: "req \<notin> fst ` set ?rq1" using assms(2) by auto
  have asked: "\<forall>ev\<in>set (trace (run_of ?ret)). req \<notin> set (asked ev)"
  proof
    fix ev assume "ev \<in> set (trace (run_of ?ret))"
    then consider "ev \<in> TimeNow ` set clock"
      | "ev = DbFetchKeys Background ?rq1 (Inr dbResults)"
      | "ev \<in> set new" | "\<exists>r. ev = LogUnsatisfied r"
      unfolding db_ok(1) by (auto split: option.splits error.splits)
    then show "req \<notin> set (asked ev)"
    proof cases
      case 1
      then show ?thesis by auto
    next
      case 2
      with notin show ?thesis by simp
    next
      case 3
      with db_ok(2) have "stage_event s Background ?rq1 (results_of ?ret) ev" by blast
      from stage_event_asked[OF this] notin show ?thesis by blast
    next
      case 4
      then show ?thesis by auto
    qed
  qed
  have kept: "\<exists>t. TimeNow t \<in> set (trace (run_of ?ret)) \<and>
               results_of ?ret req = Some (local_result ext s t)"
    if quiet: "\<forall>ev\<in>set (trace (run_of ?ret)). \<not> is_db_failure ev \<and> req \<notin> set (answered ev)"
  proof -
    have "DbFetchKeys Background ?rq1 (Inr dbResults) \<in> set (trace (run_of ?ret))"
      unfolding db_ok(1) by simp
    from bspec[OF quiet this] have a: "req \<notin> fst ` set dbResults" by simp
    have b: "\<forall>name c reqs fr. FetcherFetchKeys name c reqs (Inr fr) \<in> set new \<longrightarrow> req \<notin> fst ` set fr"
    proof (intro allI impI)
      fix name c reqs fr assume "FetcherFetchKeys name c reqs (Inr fr) \<in> set new"
      then have "FetcherFetchKeys name c reqs (Inr fr) \<in> set (trace (run_of ?ret))"
        unfolding db_ok(1) by simp
      from bspec[OF quiet this] show "req \<notin> fst ` set fr" by simp
    qed
    from a b db_ok(10) have same: "results_of ?ret req = results1 req" by blast
    from assms(1) have "req \<in> fst ` set requests" by force
    with db_ok(8) assms(2) obtain t where t: "t \<in> set clock" and "results1 req = Some (local_result ext s t)"
      by blast
    with same have "results_of ?ret req = Some (local_result ext s t)" by simp
    moreover from t have "TimeNow t \<in> set (trace (run_of ?ret))" unfolding db_ok(1) by simp
    ultimately show ?thesis by blast
  qed
  from asked kept show ?thesis by (simp add: local_result_def)
qed

theorem own_requests_short_circuit_witness:
  "(reqA, 0) \<in> set [(reqA, 0::Timestamp), (reqB, 0)] \<and>
   ServerName reqA = OwnServerName (api_ex (db_ex (Inr []) (\<lambda>n. None))
      [fetcher_ex ''f1'' (Inr [(reqB, res_until 500)])]) \<and>
   map asked (trace (run_of (FetchKeys ext_ex (api_ex (db_ex (Inr []) (\<lambda>n. None))
      [fetcher_ex ''f1'' (Inr [(reqB, res_until 500)])]) Background [(reqA, 0), (reqB, 0)] 0)))
     = [[], [], [reqB], [reqB], []] \<and>
   results_of (FetchKeys ext_ex (api_ex (db_ex (Inr []) (\<lambda>n. None))
      [fetcher_ex ''f1'' (Inr [(reqB, res_until 500)])]) Background [(reqA, 0), (reqB, 0)] 0) reqA
     = Some \<lparr>VerifyKey = \<lparr>Key = [7]\<rparr>, ExpiredTS = 0, ValidUntilTS = 400\<rparr>"
proof -
  let ?api = "api_ex (db_ex (Inr []) (\<lambda>n. None)) [fetcher_ex ''f1'' (Inr [(reqB, res_until 500)])]"
  let ?ret = "FetchKeys ext_ex ?api Background [(reqA, 0), (reqB, 0)] 0"
  have tr: "trace (run_of ?ret) =
      [TimeNow 300, TimeNow 300, DbFetchKeys Background [(reqB, 0)] (Inr []),
       FetcherFetchKeys ''f1'' (WithTimeout Background 30000000000) [(reqB, 0)] (Inr [(reqB, res_until 500)]),
       DbStoreKeys Background [reqB \<mapsto> res_until 500] None]"
    by (simp add: ex_defs run_defs)
  have mem: "(reqA, 0) \<in> set [(reqA, 0::Timestamp), (reqB, 0)]" by simp
  have own: "ServerName reqA = OwnServerName ?api" by (simp add: ex_defs)
  have quiet: "\<forall>ev\<in>set (trace (run_of ?ret)). \<not> is_db_failure ev \<and> reqA \<notin> set (answered ev)"
    unfolding tr by (simp add: ex_defs)
  from own_requests_short_circuit[OF mem own, of ext_ex Background 0] quiet
  obtain t where "TimeNow t \<in> set (trace (run_of ?ret))" and
    "results_of ?ret reqA =
       Some \<lparr>VerifyKey = \<lparr>Key = ServerPublicKey ?api\<rparr>, ExpiredTS = PublicKeyNotExpired ext_ex,
             ValidUntilTS = AsTimestamp ext_ex (t + ServerKeyValidity ?api)\<rparr>"
    by blast
  then have res: "results_of ?ret reqA = Some \<lparr>VerifyKey = \<lparr>Key = [7]\<rparr>, ExpiredTS = 0, ValidUntilTS = 400\<rparr>"
    unfolding tr by (auto simp: ex_defs)
  have "map asked (trace (run_of ?ret)) = [[], [], [reqB], [reqB], []]"
    unfolding tr by simp
  with mem own res show ?thesis by blast
qed

text \<open>
  Two runs against the claim as it was stated. In the first the fetcher returns, next to
  the remote result, an entry under the server's own name: the returned entry of the
  server's own request is the fetcher's, not the one built from the server's key. In the
  second the database's fetch fails: nothing is returned for the server's own request.
\<close>

theorem own_requests_short_circuit_counterexample:
  "results_of (FetchKeys ext_ex (api_ex (db_ex (Inr []) (\<lambda>n. None))
      [fetcher_ex ''f1'' (Inr [(reqA, res_until 900), (reqB, res_until 500)])])
      Background [(reqA, 0), (reqB, 0)] 0) reqA = Some (res_until 900) \<and>
   res_until 900 \<noteq> local_result ext_ex (api_ex (db_ex (Inr []) (\<lambda>n. None))
      [fetcher_ex ''f1'' (Inr [(reqA, res_until 900), (reqB, res_until 500)])]) 300 \<and>
   results_of (FetchKeys ext_ex (api_ex (db_ex (Inl ''connection lost'') (\<lambda>n. None)) [])
      Background [(reqA, 0)] 0) reqA = None"
  by (simp add: ex_defs run_defs)

text \<open>
  C8, as amended. \<^verbatim>\<open>FetchKeys\<close> works on the caller's map itself; the copy serves the
  completeness check only. After the call the caller's map holds exactly those of its
  original entries that are not under the server's own name and for which neither the
  database nor a fetcher has returned a result that is valid at the call's \<open>now\<close> (the
  first reading of the clock): the stages delete the others, and add or change none.
\<close>

theorem requests_map_is_shrunk:
  "\<exists>t rest.
     trace (run_of (FetchKeys ext s callerCtx requests w)) = TimeNow t # rest \<and>
     requests_after (FetchKeys ext s callerCtx requests w) =
       filter (\<lambda>p. ServerName (fst p) \<noteq> OwnServerName s \<and>
                   fst p \<notin> set (resolved ext (AsTimestamp ext t)
                                   (trace (run_of (FetchKeys ext s callerCtx requests w)))))
         requests"
proof -
  obtain t rest selfKeys where
    "trace (run_of (FetchKeys ext s callerCtx requests w)) = TimeNow t # rest" and
    "requests_after (FetchKeys ext s callerCtx requests w) =
       filter (\<lambda>p. ServerName (fst p) \<noteq> OwnServerName s \<and>
                   fst p \<notin> set (resolved ext (AsTimestamp ext t)
                                   (trace (run_of (FetchKeys ext s callerCtx requests w)))))
         requests"
    by (rule FetchKeys_leaves[of ext s callerCtx requests w])
  then show ?thesis by blast
qed

text \<open>
  A run with the server's own request and three remote ones: the database's result for
  \<open>reqB\<close> is valid now, the fetcher's result for \<open>reqC\<close> is stale, and nobody answers
  \<open>reqD\<close>. The caller's map is left with \<open>reqC\<close> and \<open>reqD\<close>.
\<close>

theorem requests_map_is_shrunk_witness:
  "resolved ext_ex 300 (trace (run_of (FetchKeys ext_ex
      (api_ex (db_ex (Inr [(reqB, res_until 500)]) (\<lambda>n. None))
         [fetcher_ex ''f1'' (Inr [(reqC, res_until 100)])])
      Background [(reqA, 0), (reqB, 0), (reqC, 0), (reqD, 0)] 0))) = [reqB] \<and>
   requests_after (FetchKeys ext_ex
      (api_ex (db_ex (Inr [(reqB, res_until 500)]) (\<lambda>n. None))
         [fetcher_ex ''f1'' (Inr [(reqC, res_until 100)])])
      Background [(reqA, 0), (reqB, 0), (reqC, 0), (reqD, 0)] 0) = [(reqC, 0), (reqD, 0)]"
proof -
  let ?api = "api_ex (db_ex (Inr [(reqB, res_until 500)]) (\<lambda>n. None))
         [fetcher_ex ''f1'' (Inr [(reqC, res_until 100)])]"
  let ?ret = "FetchKeys ext_ex ?api Background [(reqA, 0), (reqB, 0), (reqC, 0), (reqD, 0)] 0"
  have tr: "trace (run_of ?ret) =
      [TimeNow 300, TimeNow 300,
       DbFetchKeys Background [(reqB, 0), (reqC, 0), (reqD, 0)] (Inr [(reqB, res_until 500)]),
       FetcherFetchKeys ''f1'' (WithTimeout Background (Second * 30)) [(reqC, 0), (reqD, 0)]
         (Inr [(reqC, res_until 100)]),
       DbStoreKeys Background [reqC \<mapsto> res_until 100] None,
       LogUnsatisfied reqD]"
    by (simp add: ex_defs run_defs)
  have res: "resolved ext_ex 300 (trace (run_of ?ret)) = [reqB]"
    unfolding tr by (simp add: resolved_def valid_keys_def ex_defs)
  from requests_map_is_shrunk[of ext_ex ?api Background "[(reqA, 0), (reqB, 0), (reqC, 0), (reqD, 0)]" 0]
  obtain t rest where t: "trace (run_of ?ret) = TimeNow t # rest" and
    after: "requests_after ?ret =
       filter (\<lambda>p. ServerName (fst p) \<noteq> OwnServerName ?api \<and>
                   fst p \<notin> set (resolved ext_ex (AsTimestamp ext_ex t) (trace (run_of ?ret))))
         [(reqA, 0), (reqB, 0), (reqC, 0), (reqD, 0)]"
    by blast
  from t have "t = 300" unfolding tr by simp
  then have now: "AsTimestamp ext_ex t = 300" by (simp add: ex_defs)
  have "requests_after ?ret = [(reqC, 0), (reqD, 0)]"
    unfolding after now res by (simp add: ex_defs)
  with res show ?thesis by blast
qed

text \<open>
  The run in which both requests are resolved: the caller's map of two entries is empty
  after the call.
\<close>

theorem requests_map_is_shrunk_counterexample:
  "requests_after (FetchKeys ext_ex (api_ex (db_ex (Inr []) (\<lambda>n. None))
      [fetcher_ex ''f1'' (Inr [(reqB, res_until 500)])])
      Background [(reqA, 0), (reqB, 0)] 0) = [] \<and>
   requests_after (FetchKeys ext_ex (api_ex (db_ex (Inr []) (\<lambda>n. None))
      [fetcher_ex ''f1'' (Inr [(reqB, res_until 500)])])
      Background [(reqA, 0), (reqB, 0)] 0) \<noteq> [(reqA, 0), (reqB, 0)]"
  by (simp add: ex_defs run_defs)

text \<open>
  C6, as amended. The context of the caller is not used: the call does the same whatever
  it is. The database's fetch and every store get the background context, and every
  fetcher gets the background context capped at 30 seconds.
\<close>

theorem contexts_are_detached:
  "FetchKeys ext s callerCtx requests w = FetchKeys ext s Background requests w \<and>
   (\<forall>ev\<in>set (trace (run_of (FetchKeys ext s callerCtx requests w))). \<forall>c.
      context_of ev = Some c \<longrightarrow>
      c = (if is_fetcher_call ev then WithTimeout Background (Second * 30) else Background))"
proof
  show "FetchKeys ext s callerCtx requests w = FetchKeys ext s Background requests w"
    by (simp add: FetchKeys_def)
next
  let ?ret = "FetchKeys ext s callerCtx requests w"
  show "\<forall>ev\<in>set (trace (run_of ?ret)). \<forall>c. context_of ev = Some c \<longrightarrow>
      c = (if is_fetcher_call ev then WithTimeout Background (Second * 30) else Background)"
  proof (cases rule: FetchKeys_shape[of ext s callerCtx requests w])
    case (db_failed clock e)
    then show ?thesis by auto
  next
    case (db_ok clock dbResults new results1)
    show ?thesis
    proof (intro ballI allI impI)
      fix ev c assume ev: "ev \<in> set (trace (run_of ?ret))" and c: "context_of ev = Some c"
      from ev consider "ev \<in> TimeNow ` set clock"
        | "ev = DbFetchKeys Background (filter (\<lambda>p. ServerName (fst p) \<noteq> OwnServerName s) requests) (Inr dbResults)"
        | "ev \<in> set new" | "\<exists>r. ev = LogUnsatisfied r"
        unfolding db_ok(1) by (auto split: option.splits error.splits)
      then show "c = (if is_fetcher_call ev then WithTimeout Background (Second * 30) else Background)"
      proof cases
        case 1
        with c show ?thesis by auto
      next
        case 2
        with c show ?thesis by simp
      next
        case 3
        with db_ok(2) have "stage_event s Background
          (filter (\<lambda>p. ServerName (fst p) \<noteq> OwnServerName s) requests) (results_of ?ret) ev"
          by blast
        from stage_event_context[OF this c] show ?thesis .
      next
        case 4
        with c show ?thesis by auto
      qed
    qed
  qed
qed

theorem contexts_are_detached_witness:
  "FetchKeys ext_ex (api_ex (db_ex (Inr []) (\<lambda>n. None)) [fetcher_ex ''f1'' (Inr [(reqB, res_until 500)])])
     (WithTimeout Background (5 * Second)) [(reqA, 0), (reqB, 0)] 0 =
   FetchKeys ext_ex (api_ex (db_ex (Inr []) (\<lambda>n. None)) [fetcher_ex ''f1'' (Inr [(reqB, res_until 500)])])
     Background [(reqA, 0), (reqB, 0)] 0 \<and>
   map context_of (trace (run_of (FetchKeys ext_ex
     (api_ex (db_ex (Inr []) (\<lambda>n. None)) [fetcher_ex ''f1'' (Inr [(reqB, res_until 500)])])
     (WithTimeout Background (5 * Second)) [(reqA, 0), (reqB, 0)] 0))) =
   [None, None, Some Background, Some (WithTimeout Background (Second * 30)), Some Background]"
proof -
  let ?api = "api_ex (db_ex (Inr []) (\<lambda>n. None)) [fetcher_ex ''f1'' (Inr [(reqB, res_until 500)])]"
  have "map context_of (trace (run_of (FetchKeys ext_ex ?api
     (WithTimeout Background (5 * Second)) [(reqA, 0), (reqB, 0)] 0))) =
   [None, None, Some Background, Some (WithTimeout Background (Second * 30)), Some Background]"
    by (simp add: ex_defs run_defs)
  with contexts_are_detached[of ext_ex ?api "WithTimeout Background (5 * Second)" "[(reqA, 0), (reqB, 0)]" 0]
  show ?thesis by blast
qed

text \<open>
  A caller with a deadline of five seconds: the database's fetch gets the background
  context and the fetcher the background context with the 30 seconds, and neither is
  derived from the caller's.
\<close>

theorem contexts_are_detached_counterexample:
  "trace (run_of (FetchKeys ext_ex
     (api_ex (db_ex (Inr []) (\<lambda>n. None)) [fetcher_ex ''f1'' (Inr [(reqB, res_until 500)])])
     (WithTimeout Background (5 * Second)) [(reqB, 0)] 0)) ! 1 =
     DbFetchKeys Background [(reqB, 0)] (Inr []) \<and>
   \<not> derived_from (WithTimeout Background (5 * Second)) Background \<and>
   trace (run_of (FetchKeys ext_ex
     (api_ex (db_ex (Inr []) (\<lambda>n. None)) [fetcher_ex ''f1'' (Inr [(reqB, res_until 500)])])
     (WithTimeout Background (5 * Second)) [(reqB, 0)] 0)) ! 2 =
     FetcherFetchKeys ''f1'' (WithTimeout Background (Second * 30)) [(reqB, 0)]
       (Inr [(reqB, res_until 500)]) \<and>
   \<not> derived_from (WithTimeout Background (5 * Second)) (WithTimeout Background (Second * 30))"
  by (simp add: ex_defs run_defs)

lemma map_of_rev_distinct:
  "distinct (map fst xs) \<Longrightarrow> (k, v) \<in> set xs \<Longrightarrow> map_of (rev xs) k = Some v"
  by (rule map_of_is_SomeI) (simp_all add: rev_map[symmetric] )

text \<open>
  C1, as amended. When the results hold an entry for a request and a fetcher returns a
  result for it whose \<open>ValidUntilTS\<close> is not greater, the fetcher's result is not put into
  the batch stored in the database, but it does replace the entry in the results: after
  the stage the results hold the fetcher's result (given 200 then 150, they hold 150).
\<close>

theorem older_result_replaces_but_is_not_stored:
  assumes "fetcher_FetchKeys fetcher (WithTimeout ctx (Second * 30)) requests (world r) = (Inr fr, w1)"
    and "distinct (map fst fr)"
    and "(req, res) \<in> set fr"
    and "results req = Some prev"
    and "ValidUntilTS res \<le> ValidUntilTS prev"
    and "handleFetcherKeys ext s ctx now fetcher requests results r = (err, requests', results', r')"
  shows "results' req = Some res \<and>
         (\<exists>batch serr rest.
            trace r' = trace r @
              FetcherFetchKeys (fetcher_FetcherName fetcher) (WithTimeout ctx (Second * 30)) requests (Inr fr) #
              DbStoreKeys ctx batch serr # rest \<and>
            batch req = None)"
  using assms(6)
proof (cases rule: handleFetcherKeys_cases)
  case (fetch_failed e w1')
  with assms(1) show ?thesis by simp
next
  case (stored fr' w1' store w2)
  with assms(1) have fr: "fr' = fr" by simp
  from handleFetcherKeys_range_results[OF stored(2)] fr
  have "results' = results ++ map_of (rev fr)" by simp
  with map_of_rev_distinct[OF assms(2,3)] have res: "results' req = Some res" by simp
  from handleFetcherKeys_range_store_at[OF stored(2)[unfolded fr] assms(2,3)] assms(4,5)
  have "store req = None" by (auto simp: not_less[symmetric])
  with res stored(5) fr show ?thesis by simp
next
  case (store_failed fr' w1' store e w2)
  with assms(1) have fr: "fr' = fr" by simp
  from handleFetcherKeys_range_results[OF store_failed(2)] fr
  have "results' = results ++ map_of (rev fr)" by simp
  with map_of_rev_distinct[OF assms(2,3)] have res: "results' req = Some res" by simp
  from handleFetcherKeys_range_store_at[OF store_failed(2)[unfolded fr] assms(2,3)] assms(4,5)
  have "store req = None" by (auto simp: not_less[symmetric])
  with res store_failed(5) fr show ?thesis by simp
qed

text \<open>
  The stage of a fetcher that returns a result valid until 150 for a request whose entry
  in the results is valid until 200.
\<close>

theorem older_result_replaces_but_is_not_stored_witness:
  "fetcher_FetchKeys (fetcher_ex ''f2'' (Inr [(reqB, res_until 150)]))
     (WithTimeout Background (Second * 30)) [(reqB, 0)] 0 = (Inr [(reqB, res_until 150)], 0) \<and>
   distinct (map fst [(reqB, res_until 150)]) \<and>
   ValidUntilTS (res_until 150) \<le> ValidUntilTS (res_until 200) \<and>
   (case handleFetcherKeys ext_ex (api_ex (db_ex (Inr []) (\<lambda>n. None)) [])
           Background 300 (fetcher_ex ''f2'' (Inr [(reqB, res_until 150)])) [(reqB, 0)]
           [reqB \<mapsto> res_until 200] \<lparr>world = 0, trace = []\<rparr> of
      (err, requests', results', r') \<Rightarrow> results' reqB) = Some (res_until 150) \<and>
   (case handleFetcherKeys ext_ex (api_ex (db_ex (Inr []) (\<lambda>n. None)) [])
           Background 300 (fetcher_ex ''f2'' (Inr [(reqB, res_until 150)])) [(reqB, 0)]
           [reqB \<mapsto> res_until 200] \<lparr>world = 0, trace = []\<rparr> of
      (err, requests', results', r') \<Rightarrow> map is_store_call (trace r')) = [False, True]"
proof -
  let ?f = "fetcher_ex ''f2'' (Inr [(reqB, res_until 150)])"
  let ?s = "api_ex (db_ex (Inr []) (\<lambda>n. None)) []"
  let ?r = "\<lparr>world = 0::nat, trace = []\<rparr>"
  obtain err requests' results' r' where
    h: "handleFetcherKeys ext_ex ?s Background 300 ?f [(reqB, 0)] [reqB \<mapsto> res_until 200] ?r
        = (err, requests', results', r')"
    by (cases "handleFetcherKeys ext_ex ?s Background 300 ?f [(reqB, 0)] [reqB \<mapsto> res_until 200] ?r")
  have a1: "fetcher_FetchKeys ?f (WithTimeout Background (Second * 30)) [(reqB, 0)] (world ?r)
            = (Inr [(reqB, res_until 150)], 0)"
    by (simp add: ex_defs)
  have a2: "distinct (map fst [(reqB, res_until 150)])" by simp
  have a3: "(reqB, res_until 150) \<in> set [(reqB, res_until 150)]" by simp
  have a4: "[reqB \<mapsto> res_until 200] reqB = Some (res_until 200)" by simp
  have a5: "ValidUntilTS (res_until 150) \<le> ValidUntilTS (res_until 200)" by (simp add: ex_defs)
  from older_result_replaces_but_is_not_stored[OF a1 a2 a3 a4 a5 h]
  have "results' reqB = Some (res_until 150)" by blast
  moreover have "map is_store_call (trace r') = [False, True]"
    using h by (auto simp: ex_defs run_defs)
  ultimately show ?thesis using a1 a2 a5 h by simp
qed

text \<open>
  The claim's own scenario: a first fetcher returns a result valid until 200 (stale at
  300, so the request stays pending), a second one a result valid until 150. The returned
  results hold the second.
\<close>

theorem older_result_replaces_but_is_not_stored_counterexample:
  "map_option ValidUntilTS
     (results_of (FetchKeys ext_ex (api_ex (db_ex (Inr []) (\<lambda>n. None))
        [fetcher_ex ''f1'' (Inr [(reqB, res_until 200)]),
         fetcher_ex ''f2'' (Inr [(reqB, res_until 150)])])
        Background [(reqB, 0)] 0) reqB) = Some 150"
  by (simp add: ex_defs run_defs)

lemma consulted_clock: "consulted (map TimeNow clock) = []"
  by (induction clock) simp_all

lemma check_decides:
  "(case map_option Unsatisfied (FetchKeys_check rq rs) of
      None \<Rightarrow> \<forall>req\<in>fst ` set rq. rs req \<noteq> None
    | Some err \<Rightarrow> \<exists>req\<in>fst ` set rq. err = Unsatisfied req \<and> rs req = None)"
proof (cases "FetchKeys_check rq rs")
  case None
  then have "\<forall>req\<in>fst ` set rq. rs req \<noteq> None" by (simp only: FetchKeys_check_None)
  with None show ?thesis by simp
next
  case (Some req)
  from FetchKeys_check_Some[OF Some] Some show ?thesis by auto
qed

text \<open>
  C2, as amended. When the batch store issued after a fetcher's results fails,
  \<^verbatim>\<open>handleFetcherKeys\<close> returns the wrapped error \<open>StoreFailed\<close> (not the error of a failed
  fetch), and \<^verbatim>\<open>FetchKeys\<close> logs it as it logs a failed fetch and goes on. The call is not
  aborted: its error is decided by the completeness check alone, and when requests are
  still pending at its end every configured fetcher has been asked, in order.
\<close>

theorem store_failure_is_logged_not_fatal:
  assumes "DbStoreKeys c batch (Some e) \<in> set (trace (run_of (FetchKeys ext s callerCtx requests w)))"
  shows "(\<exists>name n. LogFetcherFailed name n (StoreFailed e) \<in>
            set (trace (run_of (FetchKeys ext s callerCtx requests w)))) \<and>
         (case error_of (FetchKeys ext s callerCtx requests w) of
            None \<Rightarrow> \<forall>req\<in>fst ` set requests. results_of (FetchKeys ext s callerCtx requests w) req \<noteq> None
          | Some err \<Rightarrow> \<exists>req\<in>fst ` set requests. err = Unsatisfied req \<and>
                          results_of (FetchKeys ext s callerCtx requests w) req = None) \<and>
         (requests_after (FetchKeys ext s callerCtx requests w) \<noteq> [] \<longrightarrow>
            consulted (trace (run_of (FetchKeys ext s callerCtx requests w))) =
              map fetcher_FetcherName (KeyFetchers (OurKeyRing s)))"
proof (cases rule: FetchKeys_shape[of ext s callerCtx requests w])
  case (db_failed clock e')
  with assms show ?thesis by auto
next
  case (db_ok clock dbResults new results1)
  let ?ret = "FetchKeys ext s callerCtx requests w"
  from assms have "DbStoreKeys c batch (Some e) \<in> set new"
    unfolding db_ok(1) by (auto split: option.splits error.splits)
  with db_ok(6) obtain name n where "LogFetcherFailed name n (StoreFailed e) \<in> set new" by blast
  then have logged: "\<exists>name n. LogFetcherFailed name n (StoreFailed e) \<in> set (trace (run_of ?ret))"
    unfolding db_ok(1) by auto
  have err: "(case error_of ?ret of
            None \<Rightarrow> \<forall>req\<in>fst ` set requests. results_of ?ret req \<noteq> None
          | Some err \<Rightarrow> \<exists>req\<in>fst ` set requests. err = Unsatisfied req \<and> results_of ?ret req = None)"
    unfolding db_ok(7) by (rule check_decides)
  have "consulted (trace (run_of ?ret)) = consulted new"
    unfolding db_ok(1)
    by (simp add: consulted_append consulted_clock split: option.splits error.splits)
  with db_ok(5) have all: "requests_after ?ret \<noteq> [] \<longrightarrow>
      consulted (trace (run_of ?ret)) = map fetcher_FetcherName (KeyFetchers (OurKeyRing s))"
    by simp
  from logged err all show ?thesis by blast
qed

text \<open>
  A run in which the store after the first fetcher fails: the second fetcher is asked all
  the same, for the request still pending, and the call returns no error, since both
  requests have an entry (the second one stale, so it stays pending).
\<close>

theorem store_failure_is_logged_not_fatal_witness:
  "DbStoreKeys Background [reqB \<mapsto> res_until 500] (Some ''disk full'') \<in>
     set (trace (run_of (FetchKeys ext_ex
       (api_ex (db_ex (Inr []) (\<lambda>n. if n = 0 then Some ''disk full'' else None))
          [fetcher_ex ''f1'' (Inr [(reqB, res_until 500)]),
           fetcher_ex ''f2'' (Inr [(reqC, res_until 100)])])
       Background [(reqB, 0), (reqC, 0)] 0))) \<and>
   requests_after (FetchKeys ext_ex
       (api_ex (db_ex (Inr []) (\<lambda>n. if n = 0 then Some ''disk full'' else None))
          [fetcher_ex ''f1'' (Inr [(reqB, res_until 500)]),
           fetcher_ex ''f2'' (Inr [(reqC, res_until 100)])])
       Background [(reqB, 0), (reqC, 0)] 0) = [(reqC, 0)] \<and>
   consulted (trace (run_of (FetchKeys ext_ex
       (api_ex (db_ex (Inr []) (\<lambda>n. if n = 0 then Some ''disk full'' else None))
          [fetcher_ex ''f1'' (Inr [(reqB, res_until 500)]),
           fetcher_ex ''f2'' (Inr [(reqC, res_until 100)])])
       Background [(reqB, 0), (reqC, 0)] 0))) = [''f1'', ''f2''] \<and>
   error_of (FetchKeys ext_ex
       (api_ex (db_ex (Inr []) (\<lambda>n. if n = 0 then Some ''disk full'' else None))
          [fetcher_ex ''f1'' (Inr [(reqB, res_until 500)]),
           fetcher_ex ''f2'' (Inr [(reqC, res_until 100)])])
       Background [(reqB, 0), (reqC, 0)] 0) = None"
proof -
  let ?api = "api_ex (db_ex (Inr []) (\<lambda>n. if n = 0 then Some ''disk full'' else None))
          [fetcher_ex ''f1'' (Inr [(reqB, res_until 500)]),
           fetcher_ex ''f2'' (Inr [(reqC, res_until 100)])]"
  let ?ret = "FetchKeys ext_ex ?api Background [(reqB, 0), (reqC, 0)] 0"
  have mem: "DbStoreKeys Background [reqB \<mapsto> res_until 500] (Some ''disk full'') \<in> set (trace (run_of ?ret))"
    by (simp add: ex_defs run_defs)
  have after: "requests_after ?ret = [(reqC, 0)]"
    by (simp add: ex_defs run_defs)
  have fs: "map fetcher_FetcherName (KeyFetchers (OurKeyRing ?api)) = [''f1'', ''f2'']"
    by (simp add: ex_defs)
  have err: "error_of ?ret = None"
    by (simp add: ex_defs run_defs)
  from store_failure_is_logged_not_fatal[OF mem] after fs
  have "consulted (trace (run_of ?ret)) = [''f1'', ''f2'']" by simp
  with mem after err show ?thesis by blast
qed

text \<open>
  The same kind of run, with a second fetcher that resolves the last request: after the
  failed store the wrapped error is logged, the second fetcher is asked, and the call
  returns no error.
\<close>

theorem store_failure_is_logged_not_fatal_counterexample:
  "trace (run_of (FetchKeys ext_ex
       (api_ex (db_ex (Inr []) (\<lambda>n. if n = 0 then Some ''disk full'' else None))
          [fetcher_ex ''f1'' (Inr [(reqB, res_until 500)]),
           fetcher_ex ''f2'' (Inr [(reqC, res_until 500)])])
       Background [(reqB, 0), (reqC, 0)] 0)) =
     [TimeNow 300,
      DbFetchKeys Background [(reqB, 0), (reqC, 0)] (Inr []),
      FetcherFetchKeys ''f1'' (WithTimeout Background (Second * 30)) [(reqB, 0), (reqC, 0)]
        (Inr [(reqB, res_until 500)]),
      DbStoreKeys Background [reqB \<mapsto> res_until 500] (Some ''disk full''),
      LogStoreFailed ''f1'' ''db'' ''disk full'',
      LogFetcherFailed ''f1'' 1 (StoreFailed ''disk full''),
      FetcherFetchKeys ''f2'' (WithTimeout Background (Second * 30)) [(reqC, 0)]
        (Inr [(reqC, res_until 500)]),
      DbStoreKeys Background [reqC \<mapsto> res_until 500] None] \<and>
   error_of (FetchKeys ext_ex
       (api_ex (db_ex (Inr []) (\<lambda>n. if n = 0 then Some ''disk full'' else None))
          [fetcher_ex ''f1'' (Inr [(reqB, res_until 500)]),
           fetcher_ex ''f2'' (Inr [(reqC, res_until 500)])])
       Background [(reqB, 0), (reqC, 0)] 0) = None"
  by (simp add: ex_defs run_defs)

section \<open>Claims about the key change consumer\<close>

lemmas consumer_defs = deps_ex_def consumer_ex_def msg_ex_def onMessage_def onMessage_body_def
  updateOffset_def Let_def

lemma onMessage_range_calls:
  "onMessage_range posUpdate changed users calls =
     calls @ map (\<lambda>p. OnNewKeyChange posUpdate (fst p) changed) users"
  by (induction posUpdate changed users calls rule: onMessage_range.induct) simp_all

text \<open>
  C9, as amended. For a message that parses and a query that answers with a set of users: the
  consumer sends the query for the changed user, and calls the notifier once for every
  user of the answer and for the changed user (also when the answer does not hold it),
  each time with the message's partition and offset as position and the changed user as
  subject.
\<close>

theorem key_change_fan_out:
  assumes "json_Unmarshal deps (msg_Value msg) = Inr output"
    and "QuerySharedUsers deps (UserID output) (rs_world c) = (Inr (Some users), w')"
    and "distinct (map fst users)"
    and "onMessage deps msg c = (out, c')"
  shows "out = Returned None \<and> queries c' = queries c @ [UserID output] \<and>
         (\<exists>new. notified c' = notified c @ new \<and>
            distinct (map observer new) \<and>
            set (map observer new) = insert (UserID output) (fst ` set users) \<and>
            (\<forall>call\<in>set new.
               position call =
                 \<lparr>DeviceListPosition = \<lparr>Partition = msg_Partition msg, Offset = msg_Offset msg\<rparr>\<rparr> \<and>
               subject call = UserID output))"
proof -
  let ?pos = "\<lparr>DeviceListPosition = \<lparr>Partition = msg_Partition msg, Offset = msg_Offset msg\<rparr>\<rparr>"
  let ?users = "AList.update (UserID output) 1 users"
  let ?new = "map (\<lambda>p. OnNewKeyChange ?pos (fst p) (UserID output)) ?users"
  from assms(1,2,4) have out: "out = Returned None"
    and q: "queries c' = queries c @ [UserID output]"
    and n: "notified c' = notified c @ ?new"
    by (auto simp: onMessage_def onMessage_body_def updateOffset_def Let_def onMessage_range_calls)
  have obs: "map observer ?new = map fst ?users" by (simp add: comp_def)
  have d: "distinct (map observer ?new)"
    unfolding obs using assms(3) by (rule distinct_update)
  have s: "set (map observer ?new) = insert (UserID output) (fst ` set users)"
    unfolding obs by (simp add: dom_update)
  have p: "\<forall>call\<in>set ?new. position call = ?pos \<and> subject call = UserID output"
    by auto
  from out q n d s p show ?thesis by blast
qed

text \<open>A change of alice's keys; the query answers with bob alone.\<close>

theorem key_change_fan_out_witness:
  "json_Unmarshal (deps_ex (Inr (Some [(''@bob:remote'', 2)]))) (msg_Value (msg_ex [1]))
     = Inr \<lparr>UserID = ''@alice:self''\<rparr> \<and>
   distinct (map fst [(''@bob:remote'', 2::int)]) \<and>
   fst (onMessage (deps_ex (Inr (Some [(''@bob:remote'', 2)]))) (msg_ex [1]) consumer_ex)
     = Returned None \<and>
   queries (snd (onMessage (deps_ex (Inr (Some [(''@bob:remote'', 2)]))) (msg_ex [1]) consumer_ex))
     = [''@alice:self''] \<and>
   notified (snd (onMessage (deps_ex (Inr (Some [(''@bob:remote'', 2)]))) (msg_ex [1]) consumer_ex))
     = [OnNewKeyChange \<lparr>DeviceListPosition = \<lparr>Partition = 2, Offset = 41\<rparr>\<rparr> ''@bob:remote'' ''@alice:self'',
        OnNewKeyChange \<lparr>DeviceListPosition = \<lparr>Partition = 2, Offset = 41\<rparr>\<rparr> ''@alice:self'' ''@alice:self'']"
proof -
  let ?deps = "deps_ex (Inr (Some [(''@bob:remote'', 2)]))"
  obtain out c' where h: "onMessage ?deps (msg_ex [1]) consumer_ex = (out, c')"
    by (cases "onMessage ?deps (msg_ex [1]) consumer_ex")
  have a1: "json_Unmarshal ?deps (msg_Value (msg_ex [1])) = Inr \<lparr>UserID = ''@alice:self''\<rparr>"
    by (simp add: consumer_defs)
  have a2: "QuerySharedUsers ?deps (UserID \<lparr>UserID = ''@alice:self''\<rparr>) (rs_world consumer_ex)
            = (Inr (Some [(''@bob:remote'', 2)]), ())"
    by (simp add: consumer_defs)
  have a3: "distinct (map fst [(''@bob:remote'', 2::int)])" by simp
  from key_change_fan_out[OF a1 a2 a3 h]
  have "out = Returned None" and "queries c' = queries consumer_ex @ [''@alice:self'']"
    by simp_all
  moreover have "notified c' =
      [OnNewKeyChange \<lparr>DeviceListPosition = \<lparr>Partition = 2, Offset = 41\<rparr>\<rparr> ''@bob:remote'' ''@alice:self'',
       OnNewKeyChange \<lparr>DeviceListPosition = \<lparr>Partition = 2, Offset = 41\<rparr>\<rparr> ''@alice:self'' ''@alice:self'']"
    using h by (auto simp: consumer_defs)
  ultimately show ?thesis using a1 a3 h by (simp add: consumer_ex_def)
qed

text \<open>
  Two runs against the claim as it was stated, with a message that parses. In the first
  the query fails: the consumer returns the error and notifies no one, not even the
  changed user. In the second the query leaves the map of the response nil: the consumer
  panics before it notifies anyone.
\<close>

theorem key_change_fan_out_counterexample:
  "json_Unmarshal (deps_ex (Inl ''roomserver down'')) (msg_Value (msg_ex [1]))
     = Inr \<lparr>UserID = ''@alice:self''\<rparr> \<and>
   fst (onMessage (deps_ex (Inl ''roomserver down'')) (msg_ex [1]) consumer_ex)
     = Returned (Some ''roomserver down'') \<and>
   notified (snd (onMessage (deps_ex (Inl ''roomserver down'')) (msg_ex [1]) consumer_ex)) = [] \<and>
   fst (onMessage (deps_ex (Inr None)) (msg_ex [1]) consumer_ex) = Panicked \<and>
   notified (snd (onMessage (deps_ex (Inr None)) (msg_ex [1]) consumer_ex)) = []"
  by (simp add: consumer_defs)

text \<open>
  C10. Whichever way \<^verbatim>\<open>onMessage\<close> is left, the offset recorded for the message's
  partition afterwards is the message's offset, and the other partitions keep theirs; a
  message that does not parse and a query that fails make \<^verbatim>\<open>onMessage\<close> return the error.
\<close>

theorem offset_recorded_on_every_exit:
  "partitionToOffset (snd (onMessage deps msg c)) =
     (partitionToOffset c)(msg_Partition msg \<mapsto> msg_Offset msg) \<and>
   (\<forall>e. json_Unmarshal deps (msg_Value msg) = Inl e \<longrightarrow>
        fst (onMessage deps msg c) = Returned (Some e)) \<and>
   (\<forall>output e. json_Unmarshal deps (msg_Value msg) = Inr output \<and>
        fst (QuerySharedUsers deps (UserID output) (rs_world c)) = Inl e \<longrightarrow>
        fst (onMessage deps msg c) = Returned (Some e))"
  by (auto simp: onMessage_def onMessage_body_def updateOffset_def Let_def
           split: sum.splits prod.splits option.splits)

text \<open>A message that does not parse, and one whose query fails.\<close>

theorem offset_recorded_on_every_exit_witness:
  "json_Unmarshal (deps_ex (Inr (Some []))) (msg_Value (msg_ex [0])) = Inl ''invalid character'' \<and>
   fst (onMessage (deps_ex (Inr (Some []))) (msg_ex [0]) consumer_ex)
     = Returned (Some ''invalid character'') \<and>
   partitionToOffset (snd (onMessage (deps_ex (Inr (Some []))) (msg_ex [0]) consumer_ex)) 2 = Some 41 \<and>
   fst (onMessage (deps_ex (Inl ''roomserver down'')) (msg_ex [1]) consumer_ex)
     = Returned (Some ''roomserver down'') \<and>
   partitionToOffset (snd (onMessage (deps_ex (Inl ''roomserver down'')) (msg_ex [1]) consumer_ex)) 2
     = Some 41"
proof -
  have a: "json_Unmarshal (deps_ex (Inr (Some []))) (msg_Value (msg_ex [0])) = Inl ''invalid character''"
    by (simp add: consumer_defs)
  have b: "json_Unmarshal (deps_ex (Inl ''roomserver down'')) (msg_Value (msg_ex [1]))
             = Inr \<lparr>UserID = ''@alice:self''\<rparr> \<and>
           fst (QuerySharedUsers (deps_ex (Inl ''roomserver down'')) (UserID \<lparr>UserID = ''@alice:self''\<rparr>)
                  (rs_world consumer_ex)) = Inl ''roomserver down''"
    by (simp add: consumer_defs)
  have p: "msg_Partition (msg_ex bytes) = 2 \<and> msg_Offset (msg_ex bytes) = 41" for bytes
    by (simp add: msg_ex_def)
  from offset_recorded_on_every_exit[of "deps_ex (Inr (Some []))" "msg_ex [0]" consumer_ex] a p
  have 1: "fst (onMessage (deps_ex (Inr (Some []))) (msg_ex [0]) consumer_ex)
             = Returned (Some ''invalid character'')"
    and 2: "partitionToOffset (snd (onMessage (deps_ex (Inr (Some []))) (msg_ex [0]) consumer_ex)) 2 = Some 41"
    by simp_all
  from offset_recorded_on_every_exit[of "deps_ex (Inl ''roomserver down'')" "msg_ex [1]" consumer_ex] b p
  have 3: "fst (onMessage (deps_ex (Inl ''roomserver down'')) (msg_ex [1]) consumer_ex)
             = Returned (Some ''roomserver down'')"
    and 4: "partitionToOffset (snd (onMessage (deps_ex (Inl ''roomserver down'')) (msg_ex [1]) consumer_ex)) 2
             = Some 41"
    by simp_all
  from a 1 2 3 4 show ?thesis by blast
qed

end
